theory Spec2Isabelle
  imports Complex_Main "HOL-Library.Word" "HOL-Library.Multiset"
    "HOL-Library.Char_ord" "HOL-Library.List_Lexorder"
begin

section \<open>The volume engine of DICOM\_Viewer.cpp\<close>

text \<open>
  The development embeds the two member functions of \<^verbatim>\<open>MainFrame\<close> that carry the
  algorithmic content of the viewer: \<^verbatim>\<open>OnLoadBtn\<close> (series grouping, series choice,
  slice loading, sorting, packing) and \<^verbatim>\<open>UpdateOneView\<close> (plane extraction, windowing,
  cross-hair coordinates).

  Conventions.
  \<^item> \<^verbatim>\<open>int16_t\<close> samples are \<open>16 word\<close>, read with \<open>sint\<close>; \<^verbatim>\<open>unsigned char\<close> is
    \<open>8 word\<close>; \<^verbatim>\<open>Uint16\<close> is \<open>16 word\<close>, read with \<open>uint\<close>.
  \<^item> \<^verbatim>\<open>int\<close> values are \<open>int\<close>. Signed overflow is undefined in C++, so a theorem that
    needs a product of two \<^verbatim>\<open>int\<close>s states that it stays below \<open>2 ^ 31\<close>.
  \<^item> \<^verbatim>\<open>size_t\<close> values are \<open>nat\<close> with the reduction modulo \<open>2 ^ 64\<close> written out.
  \<^item> \<^verbatim>\<open>double\<close> values are \<open>real\<close>: rounding of the quotient is not modelled. Division
    by zero, which IEEE 754 defines, is modelled by the type \<open>fp\<close> below.
  \<^item> What DCMTK reads from a file is a record \<open>dcm_file\<close>: each field is the value that
    the corresponding DCMTK call hands to the viewer.
  \<^item> \<^verbatim>\<open>std::sort\<close> is a parameter \<open>srt\<close> of the build. What holds for every sort is
    stated under the guarantee of the C++ standard (\<open>std_sort_contract\<close>); \<open>stdSort\<close>
    is the sort as libstdc++ implements it.
\<close>

subsection \<open>Data\<close>

type_synonym int16 = "16 word"

text \<open>\<^verbatim>\<open>struct SliceRaw { int instance; std::vector<int16_t> pixels; }\<close>\<close>

record SliceRaw =
  instanceNum :: int
  pixels :: "int16 list"

text \<open>The volume fields of \<^verbatim>\<open>MainFrame\<close>.\<close>

record MainFrame =
  volumeData :: "int16 list"
  volWidth :: int
  volHeight :: int
  volDepth :: int
  pxSpcX :: real
  pxSpcY :: real
  sliceThick :: real
  patientName :: string
  patientID :: string

text \<open>The member initialisers: no volume, unit spacing, unknown patient.\<close>

definition initialFrame :: MainFrame where
  "initialFrame = \<lparr>volumeData = [], volWidth = 0, volHeight = 0, volDepth = 0,
     pxSpcX = 1, pxSpcY = 1, sliceThick = 1,
     patientName = ''Unknown'', patientID = ''Unknown''\<rparr>"

text \<open>
  One \<^verbatim>\<open>*.dcm\<close> file as the viewer sees it through DCMTK.
  \<^item> \<open>loadGood\<close>: \<^verbatim>\<open>ff.loadFile(...).good()\<close> (both passes call it with the same arguments,
    the ones spelled out in the first pass being the defaults);
  \<^item> \<open>seriesUID\<close>: the pointer set by \<^verbatim>\<open>findAndGetString(DCM_SeriesInstanceUID, uid)\<close>,
    \<open>None\<close> for \<^verbatim>\<open>nullptr\<close>;
  \<^item> \<open>dsRows\<close>, \<open>dsColumns\<close>, \<open>dsSliceThickness\<close>, \<open>dsInstanceNumber\<close>: the value of the
    out-parameter after the \<^verbatim>\<open>findAndGet...\<close> call (DCMTK writes it on failure too,
    resetting it to 0);
  \<^item> \<open>dsPixelSpacing\<close>: \<open>Some (sp[0], sp[1])\<close> when \<^verbatim>\<open>findAndGetFloat64Array\<close> is good;
  \<^item> \<open>dsPatientName\<close>, \<open>dsPatientID\<close>: \<open>Some\<close> when the call is good and the pointer is
    not null;
  \<^item> \<open>imgNormal\<close>, \<open>imgWidth\<close>, \<open>imgHeight\<close>, \<open>imgOutputData\<close>: status, size and
    \<^verbatim>\<open>getOutputData(16)\<close> of the \<^verbatim>\<open>DicomImage\<close> (\<open>None\<close> for a null pointer).
\<close>

record dcm_file =
  filePath :: string
  loadGood :: bool
  seriesUID :: "string option"
  dsRows :: "16 word"
  dsColumns :: "16 word"
  dsPixelSpacing :: "(real \<times> real) option"
  dsSliceThickness :: real
  dsPatientName :: "string option"
  dsPatientID :: "string option"
  dsInstanceNumber :: int
  imgNormal :: bool
  imgWidth :: int
  imgHeight :: int
  imgOutputData :: "int16 list option"

subsection \<open>Series grouping and choice (lines 424 to 444)\<close>

text \<open>
  \<^verbatim>\<open>std::map<std::string, std::vector<std::string>>\<close> is an association list kept in
  strictly ascending key order, which is the order a range-for visits it in.
  \<open>map_push k v m\<close> is \<^verbatim>\<open>m[k].push_back(v)\<close>. The vectors hold the file records
  themselves where the code holds their paths: the second pass loads each path again
  with the same call, and a folder lists no path twice.
\<close>

fun map_push :: "'k::linorder \<Rightarrow> 'v \<Rightarrow> ('k \<times> 'v list) list \<Rightarrow> ('k \<times> 'v list) list" where
  "map_push k v [] = [(k, [v])]"
| "map_push k v ((k', vs) # m) =
     (if k = k' then (k', vs @ [v]) # m
      else if k < k' then (k, [v]) # (k', vs) # m
      else (k', vs) # map_push k v m)"

text \<open>\<open>map_at m k\<close> is \<^verbatim>\<open>m[k]\<close> read: the stored vector, or a fresh empty one.\<close>

definition map_at :: "('k \<times> 'v list) list \<Rightarrow> 'k \<Rightarrow> 'v list" where
  "map_at m k = (case map_of m k of Some vs \<Rightarrow> vs | None \<Rightarrow> [])"

text \<open>The body of the scanning loop.\<close>

definition scanStep ::
  "(string \<times> dcm_file list) list \<Rightarrow> dcm_file \<Rightarrow> (string \<times> dcm_file list) list" where
  "scanStep seriesMap f =
     (if loadGood f
      then (case seriesUID f of Some uid \<Rightarrow> map_push uid f seriesMap | None \<Rightarrow> seriesMap)
      else seriesMap)"

definition groupSeries :: "dcm_file list \<Rightarrow> (string \<times> dcm_file list) list" where
  "groupSeries files = foldl scanStep [] files"

text \<open>
  The body of the loop that picks \<^verbatim>\<open>bestUID\<close>: a strictly larger list replaces the
  current best.
\<close>

definition bestStep :: "'k \<times> nat \<Rightarrow> 'k \<times> 'v list \<Rightarrow> 'k \<times> nat" where
  "bestStep acc e =
     (if length (snd e) > snd acc then (fst e, length (snd e)) else acc)"

definition bestUID :: "(string \<times> 'v list) list \<Rightarrow> string" where
  "bestUID seriesMap = fst (foldl bestStep ('''', 0) seriesMap)"

text \<open>
  \<open>None\<close> stands for the two early returns (\<^verbatim>\<open>files.IsEmpty()\<close>,
  \<^verbatim>\<open>seriesMap.empty()\<close>); otherwise the result is \<^verbatim>\<open>targetFiles\<close>.
\<close>

definition selectSeries :: "dcm_file list \<Rightarrow> dcm_file list option" where
  "selectSeries files =
     (if files = [] then None
      else let seriesMap = groupSeries files
           in if seriesMap = [] then None
              else Some (map_at seriesMap (bestUID seriesMap)))"

subsection \<open>Loading, sorting and packing (lines 445 to 495)\<close>

text \<open>The block guarded by \<^verbatim>\<open>if(volWidth == 0)\<close>.\<close>

definition readHeader :: "MainFrame \<Rightarrow> dcm_file \<Rightarrow> MainFrame" where
  "readHeader st f =
     (let st1 = st\<lparr>volWidth := uint (dsColumns f), volHeight := uint (dsRows f)\<rparr>;
          st2 = (case dsPixelSpacing f of
                   Some (sp0, sp1) \<Rightarrow> st1\<lparr>pxSpcY := sp0, pxSpcX := sp1\<rparr>
                 | None \<Rightarrow> st1);
          st3 = st2\<lparr>sliceThick := dsSliceThickness f\<rparr>;
          st4 = (case dsPatientName f of Some n \<Rightarrow> st3\<lparr>patientName := n\<rparr> | None \<Rightarrow> st3)
      in (case dsPatientID f of Some i \<Rightarrow> st4\<lparr>patientID := i\<rparr> | None \<Rightarrow> st4))"

text \<open>
  The body of the loading loop: the frame and \<^verbatim>\<open>tempSlices\<close> are threaded through.
  The vector constructor copies \<^verbatim>\<open>volWidth * volHeight\<close> samples from the buffer of
  DCMTK; \<open>take\<close> is that copy when the buffer holds as many (\<open>image_ok\<close> below).
\<close>

definition loadStep ::
  "MainFrame \<times> SliceRaw list \<Rightarrow> dcm_file \<Rightarrow> MainFrame \<times> SliceRaw list" where
  "loadStep acc f =
     (let st = fst acc; tempSlices = snd acc
      in if loadGood f
         then let st' = (if volWidth st = 0 then readHeader st f else st)
              in if imgNormal f \<and> imgWidth f = volWidth st' \<and> imgHeight f = volHeight st'
                 then (case imgOutputData f of
                         Some data \<Rightarrow>
                           (st', tempSlices @
                              [\<lparr>instanceNum = dsInstanceNumber f,
                                pixels = take (nat (volWidth st' * volHeight st')) data\<rparr>])
                       | None \<Rightarrow> (st', tempSlices))
                 else (st', tempSlices)
         else (st, tempSlices))"

definition loadSlices :: "MainFrame \<Rightarrow> dcm_file list \<Rightarrow> MainFrame \<times> SliceRaw list" where
  "loadSlices st targetFiles =
     foldl loadStep (st\<lparr>volWidth := 0, volHeight := 0\<rparr>, []) targetFiles"

datatype load_outcome = NoSeries | EmptyVolume | Loaded

text \<open>
  What \<^verbatim>\<open>std::sort\<close> with the comparator \<^verbatim>\<open>a.instance < b.instance\<close> promises: the result
  is a rearrangement of the input in ascending order of \<open>instanceNum\<close>. The standard
  says nothing on the relative order of slices with equal \<open>instanceNum\<close>.
\<close>

definition std_sort_contract :: "(SliceRaw list \<Rightarrow> SliceRaw list) \<Rightarrow> bool" where
  "std_sort_contract srt =
     (\<forall>xs. mset (srt xs) = mset xs \<and> sorted (map instanceNum (srt xs)))"

text \<open>
  From \<^verbatim>\<open>std::vector<SliceRaw> tempSlices\<close> to the end of \<^verbatim>\<open>OnLoadBtn\<close>. The text box,
  the slider ranges and the redraw that follow a successful build belong to the user
  interface and are not part of the frame.
\<close>

definition buildVolume ::
  "(SliceRaw list \<Rightarrow> SliceRaw list) \<Rightarrow> MainFrame \<Rightarrow> dcm_file list
     \<Rightarrow> load_outcome \<times> MainFrame" where
  "buildVolume srt st targetFiles =
     (let r = loadSlices st targetFiles; st' = fst r; tempSlices = snd r
      in if tempSlices = [] then (EmptyVolume, st')
         else let sortedSlices = srt tempSlices
              in (Loaded, st'\<lparr>volDepth := int (length sortedSlices),
                              volumeData := concat (map pixels sortedSlices)\<rparr>))"

definition OnLoadBtn ::
  "(SliceRaw list \<Rightarrow> SliceRaw list) \<Rightarrow> MainFrame \<Rightarrow> dcm_file list
     \<Rightarrow> load_outcome \<times> MainFrame" where
  "OnLoadBtn srt st files =
     (case selectSeries files of
        None \<Rightarrow> (NoSeries, st)
      | Some targetFiles \<Rightarrow> buildVolume srt st targetFiles)"

subsection \<open>The sort of line 480\<close>

text \<open>
  \<^verbatim>\<open>std::sort\<close> belongs to the C++ library, not to the repository. The definitions
  below follow the algorithm of libstdc++ (GCC, \<^verbatim>\<open>bits/stl_algo.h\<close> and
  \<^verbatim>\<open>bits/stl_heap.h\<close>): introsort with a median-of-three partition down to ranges of 16
  elements, heap sort when the depth limit is used up, and a final insertion sort.
  Iterators are positions in the list; the comparator is \<open>cmp\<close>.
\<close>

text \<open>\<^verbatim>\<open>std::iter_swap\<close> on positions \<open>i\<close> and \<open>j\<close>.\<close>

definition iter_swap :: "nat \<Rightarrow> nat \<Rightarrow> 'a list \<Rightarrow> 'a list" where
  "iter_swap i j xs = xs[i := xs ! j, j := xs ! i]"

text \<open>\<^verbatim>\<open>__move_median_to_first(result, a, b, c, comp)\<close>.\<close>

definition move_median_to_first ::
  "('a \<Rightarrow> 'a \<Rightarrow> bool) \<Rightarrow> nat \<Rightarrow> nat \<Rightarrow> nat \<Rightarrow> nat \<Rightarrow> 'a list \<Rightarrow> 'a list" where
  "move_median_to_first cmp result a b c xs =
     (if cmp (xs ! a) (xs ! b)
      then (if cmp (xs ! b) (xs ! c) then iter_swap result b xs
            else if cmp (xs ! a) (xs ! c) then iter_swap result c xs
            else iter_swap result a xs)
      else if cmp (xs ! a) (xs ! c) then iter_swap result a xs
      else if cmp (xs ! b) (xs ! c) then iter_swap result c xs
      else iter_swap result b xs)"

text \<open>
  The two inner loops of \<^verbatim>\<open>__unguarded_partition\<close>:
  \<^verbatim>\<open>while (comp(first, pivot)) ++first;\<close> and \<^verbatim>\<open>while (comp(pivot, last)) --last;\<close>.
  The library does not test the bounds (the pivot and the median stop the scans); the
  model stops at the ends of the array, which no run below reaches.
\<close>

function scan_up :: "('a \<Rightarrow> 'a \<Rightarrow> bool) \<Rightarrow> 'a list \<Rightarrow> nat \<Rightarrow> nat \<Rightarrow> nat" where
  "scan_up cmp xs pivot first =
     (if first < length xs \<and> cmp (xs ! first) (xs ! pivot)
      then scan_up cmp xs pivot (Suc first) else first)"
  by pat_completeness auto
termination
  by (relation "measure (\<lambda>(cmp, xs, pivot, first). length xs - first)") auto

fun scan_down :: "('a \<Rightarrow> 'a \<Rightarrow> bool) \<Rightarrow> 'a list \<Rightarrow> nat \<Rightarrow> nat \<Rightarrow> nat" where
  "scan_down cmp xs pivot 0 = 0"
| "scan_down cmp xs pivot (Suc n) =
     (if cmp (xs ! pivot) (xs ! Suc n) then scan_down cmp xs pivot n else Suc n)"

text \<open>\<^verbatim>\<open>__unguarded_partition(first, last, pivot, comp)\<close>: returns the cut and the array.\<close>

function unguarded_partition ::
  "('a \<Rightarrow> 'a \<Rightarrow> bool) \<Rightarrow> nat \<Rightarrow> nat \<Rightarrow> nat \<Rightarrow> 'a list \<Rightarrow> nat \<times> 'a list" where
  "unguarded_partition cmp pivot first lastIt xs =
     (let f = scan_up cmp xs pivot first;
          l = scan_down cmp xs pivot (lastIt - 1)
      in if \<not> f < l then (f, xs)
         else unguarded_partition cmp pivot (Suc f) l (iter_swap f l xs))"
  by pat_completeness auto
termination
proof (relation "measure (\<lambda>(cmp, pivot, first, lastIt, xs). lastIt)", goal_cases)
  case 1
  then show ?case by simp
next
  case (2 cmp pivot first lastIt xs f l)
  have "scan_down cmp xs pivot n \<le> n" for n
    by (induction n) auto
  then have "l \<le> lastIt - 1" using 2(2) by simp
  then show ?case using 2(3) by simp
qed

text \<open>\<^verbatim>\<open>__unguarded_partition_pivot(first, last, comp)\<close>.\<close>

definition unguarded_partition_pivot ::
  "('a \<Rightarrow> 'a \<Rightarrow> bool) \<Rightarrow> nat \<Rightarrow> nat \<Rightarrow> 'a list \<Rightarrow> nat \<times> 'a list" where
  "unguarded_partition_pivot cmp first lastIt xs =
     (let mid = first + (lastIt - first) div 2
      in unguarded_partition cmp first (first + 1) lastIt
           (move_median_to_first cmp first (first + 1) mid (lastIt - 1) xs))"

text \<open>\<^verbatim>\<open>__push_heap(first, holeIndex, topIndex, value, comp)\<close>.\<close>

function push_heap ::
  "('a \<Rightarrow> 'a \<Rightarrow> bool) \<Rightarrow> nat \<Rightarrow> nat \<Rightarrow> nat \<Rightarrow> 'a \<Rightarrow> 'a list \<Rightarrow> 'a list" where
  "push_heap cmp first holeIndex topIndex val xs =
     (let parent = (holeIndex - 1) div 2
      in if holeIndex > topIndex \<and> cmp (xs ! (first + parent)) val
         then push_heap cmp first parent topIndex val
                (xs[first + holeIndex := xs ! (first + parent)])
         else xs[first + holeIndex := val])"
  by pat_completeness auto
termination
  by (relation "measure (\<lambda>(cmp, first, holeIndex, topIndex, val, xs). holeIndex)") auto

text \<open>
  \<^verbatim>\<open>__adjust_heap(first, holeIndex, len, value, comp)\<close>: \<open>sift_down\<close> is its
  \<^verbatim>\<open>while\<close> loop, in which \<^verbatim>\<open>holeIndex\<close> equals \<^verbatim>\<open>secondChild\<close> at every test. The
  lengths are signed in the library; \<open>2 \<le> len\<close> keeps \<open>(len - 2) div 2\<close> the same number.
\<close>

function sift_down ::
  "('a \<Rightarrow> 'a \<Rightarrow> bool) \<Rightarrow> nat \<Rightarrow> nat \<Rightarrow> nat \<Rightarrow> 'a list \<Rightarrow> nat \<times> 'a list" where
  "sift_down cmp first len secondChild xs =
     (if secondChild < (len - 1) div 2
      then let c = 2 * (secondChild + 1);
               c' = (if cmp (xs ! (first + c)) (xs ! (first + (c - 1))) then c - 1 else c)
           in sift_down cmp first len c' (xs[first + secondChild := xs ! (first + c')])
      else (secondChild, xs))"
  by pat_completeness auto
termination
  by (relation "measure (\<lambda>(cmp, first, len, secondChild, xs). (len - 1) div 2 - secondChild)")
    auto

definition adjust_heap ::
  "('a \<Rightarrow> 'a \<Rightarrow> bool) \<Rightarrow> nat \<Rightarrow> nat \<Rightarrow> nat \<Rightarrow> 'a \<Rightarrow> 'a list \<Rightarrow> 'a list" where
  "adjust_heap cmp first holeIndex len val xs =
     (let r = sift_down cmp first len holeIndex xs;
          secondChild = fst r; xs1 = snd r
      in if even len \<and> 2 \<le> len \<and> secondChild = (len - 2) div 2
         then let c = 2 * (secondChild + 1)
              in push_heap cmp first (c - 1) holeIndex val
                   (xs1[first + secondChild := xs1 ! (first + (c - 1))])
         else push_heap cmp first secondChild holeIndex val xs1)"

text \<open>\<^verbatim>\<open>__make_heap\<close>, \<^verbatim>\<open>__pop_heap\<close>, \<^verbatim>\<open>__sort_heap\<close>, \<^verbatim>\<open>__heap_select\<close>, \<^verbatim>\<open>__partial_sort\<close>.\<close>

definition make_heap :: "('a \<Rightarrow> 'a \<Rightarrow> bool) \<Rightarrow> nat \<Rightarrow> nat \<Rightarrow> 'a list \<Rightarrow> 'a list" where
  "make_heap cmp first lastIt xs =
     (if lastIt - first < 2 then xs
      else let len = lastIt - first
           in fold (\<lambda>parent ys. adjust_heap cmp first parent len (ys ! (first + parent)) ys)
                (rev [0..<Suc ((len - 2) div 2)]) xs)"

definition pop_heap ::
  "('a \<Rightarrow> 'a \<Rightarrow> bool) \<Rightarrow> nat \<Rightarrow> nat \<Rightarrow> nat \<Rightarrow> 'a list \<Rightarrow> 'a list" where
  "pop_heap cmp first lastIt result xs =
     adjust_heap cmp first 0 (lastIt - first) (xs ! result) (xs[result := xs ! first])"

definition sort_heap :: "('a \<Rightarrow> 'a \<Rightarrow> bool) \<Rightarrow> nat \<Rightarrow> nat \<Rightarrow> 'a list \<Rightarrow> 'a list" where
  "sort_heap cmp first lastIt xs =
     fold (\<lambda>l ys. pop_heap cmp first l l ys) (rev [Suc first..<lastIt]) xs"

definition heap_select ::
  "('a \<Rightarrow> 'a \<Rightarrow> bool) \<Rightarrow> nat \<Rightarrow> nat \<Rightarrow> nat \<Rightarrow> 'a list \<Rightarrow> 'a list" where
  "heap_select cmp first middle lastIt xs =
     fold (\<lambda>i ys. if cmp (ys ! i) (ys ! first) then pop_heap cmp first middle i ys else ys)
       [middle..<lastIt] (make_heap cmp first middle xs)"

definition partial_sort ::
  "('a \<Rightarrow> 'a \<Rightarrow> bool) \<Rightarrow> nat \<Rightarrow> nat \<Rightarrow> nat \<Rightarrow> 'a list \<Rightarrow> 'a list" where
  "partial_sort cmp first middle lastIt xs =
     sort_heap cmp first middle (heap_select cmp first middle lastIt xs)"

text \<open>
  \<^verbatim>\<open>__introsort_loop(first, last, depth_limit, comp)\<close> with \<^verbatim>\<open>_S_threshold = 16\<close>: each
  round of the \<^verbatim>\<open>while\<close> loop lowers \<^verbatim>\<open>depth_limit\<close>, sorts the right part by the
  recursive call and goes on with the left part.
\<close>

fun introsort_loop ::
  "('a \<Rightarrow> 'a \<Rightarrow> bool) \<Rightarrow> nat \<Rightarrow> nat \<Rightarrow> nat \<Rightarrow> 'a list \<Rightarrow> 'a list" where
  "introsort_loop cmp 0 first lastIt xs =
     (if lastIt - first > 16 then partial_sort cmp first lastIt lastIt xs else xs)"
| "introsort_loop cmp (Suc depth_limit) first lastIt xs =
     (if lastIt - first > 16
      then let r = unguarded_partition_pivot cmp first lastIt xs;
               cut = fst r
           in introsort_loop cmp depth_limit first cut
                (introsort_loop cmp depth_limit cut lastIt (snd r))
      else xs)"

text \<open>
  \<^verbatim>\<open>__unguarded_linear_insert(last, comp)\<close>, the value and the position being passed
  apart, and \<^verbatim>\<open>__insertion_sort\<close>: \<open>move_backward_one\<close> is
  \<^verbatim>\<open>std::move_backward(first, i, i + 1)\<close>, \<open>insertion_step\<close> the body of the loop.
\<close>

fun unguarded_linear_insert :: "('a \<Rightarrow> 'a \<Rightarrow> bool) \<Rightarrow> 'a \<Rightarrow> nat \<Rightarrow> 'a list \<Rightarrow> 'a list" where
  "unguarded_linear_insert cmp val 0 xs = xs[0 := val]"
| "unguarded_linear_insert cmp val (Suc nxt) xs =
     (if cmp val (xs ! nxt)
      then unguarded_linear_insert cmp val nxt (xs[Suc nxt := xs ! nxt])
      else xs[Suc nxt := val])"

definition move_backward_one :: "nat \<Rightarrow> nat \<Rightarrow> 'a list \<Rightarrow> 'a list" where
  "move_backward_one first i xs =
     take (Suc first) xs @ take (i - first) (drop first xs) @ drop (Suc i) xs"

definition insertion_step :: "('a \<Rightarrow> 'a \<Rightarrow> bool) \<Rightarrow> nat \<Rightarrow> nat \<Rightarrow> 'a list \<Rightarrow> 'a list" where
  "insertion_step cmp first i xs =
     (if cmp (xs ! i) (xs ! first)
      then (move_backward_one first i xs)[first := xs ! i]
      else unguarded_linear_insert cmp (xs ! i) i xs)"

definition insertion_sort :: "('a \<Rightarrow> 'a \<Rightarrow> bool) \<Rightarrow> nat \<Rightarrow> nat \<Rightarrow> 'a list \<Rightarrow> 'a list" where
  "insertion_sort cmp first lastIt xs =
     fold (insertion_step cmp first) [Suc first..<lastIt] xs"

text \<open>\<^verbatim>\<open>__unguarded_insertion_sort\<close> and \<^verbatim>\<open>__final_insertion_sort\<close>.\<close>

definition unguarded_insertion_sort ::
  "('a \<Rightarrow> 'a \<Rightarrow> bool) \<Rightarrow> nat \<Rightarrow> nat \<Rightarrow> 'a list \<Rightarrow> 'a list" where
  "unguarded_insertion_sort cmp first lastIt xs =
     fold (\<lambda>i ys. unguarded_linear_insert cmp (ys ! i) i ys) [first..<lastIt] xs"

definition final_insertion_sort ::
  "('a \<Rightarrow> 'a \<Rightarrow> bool) \<Rightarrow> nat \<Rightarrow> nat \<Rightarrow> 'a list \<Rightarrow> 'a list" where
  "final_insertion_sort cmp first lastIt xs =
     (if lastIt - first > 16
      then unguarded_insertion_sort cmp (first + 16) lastIt
             (insertion_sort cmp first (first + 16) xs)
      else insertion_sort cmp first lastIt xs)"

text \<open>\<^verbatim>\<open>std::__lg\<close>, the position of the highest bit, and \<^verbatim>\<open>std::__sort\<close>.\<close>

fun lg :: "nat \<Rightarrow> nat" where
  "lg n = (if n < 2 then 0 else Suc (lg (n div 2)))"

definition std_sort :: "('a \<Rightarrow> 'a \<Rightarrow> bool) \<Rightarrow> 'a list \<Rightarrow> 'a list" where
  "std_sort cmp xs =
     (if xs = [] then xs
      else final_insertion_sort cmp 0 (length xs)
             (introsort_loop cmp (lg (length xs) * 2) 0 (length xs) xs))"

text \<open>The call of line 480: \<^verbatim>\<open>std::sort\<close> with the comparator \<^verbatim>\<open>a.instance < b.instance\<close>.\<close>

definition stdSort :: "SliceRaw list \<Rightarrow> SliceRaw list" where
  "stdSort = std_sort (\<lambda>a b. instanceNum a < instanceNum b)"

subsection \<open>Plane extraction (lines 514 to 543)\<close>

text \<open>\<^verbatim>\<open>size_t\<close> arithmetic, 64 bits wide.\<close>

definition to_size_t :: "int \<Rightarrow> nat" where
  "to_size_t i = nat (i mod 2 ^ 64)"

definition sz_add :: "nat \<Rightarrow> nat \<Rightarrow> nat" where
  "sz_add a b = (a + b) mod 2 ^ 64"

definition sz_mul :: "nat \<Rightarrow> nat \<Rightarrow> nat" where
  "sz_mul a b = (a * b) mod 2 ^ 64"

datatype error = OutOfBoundsRead

text \<open>
  Reading \<^verbatim>\<open>[begin() + off, begin() + off + n)\<close> of a vector, \<open>off\<close> being a \<^verbatim>\<open>size_t\<close>.
  The iterator sum converts \<open>off\<close> to the signed difference type, so a value from
  \<open>2 ^ 63\<close> on points before the buffer. A range that leaves the vector is the error
  \<open>OutOfBoundsRead\<close>.
\<close>

definition read_range :: "'a list \<Rightarrow> nat \<Rightarrow> int \<Rightarrow> error + 'a list" where
  "read_range xs off n =
     (if off < 2 ^ 63 \<and> 0 \<le> n \<and> off + nat n \<le> length xs
      then Inr (take (nat n) (drop off xs))
      else Inl OutOfBoundsRead)"

text \<open>\<^verbatim>\<open>std::copy\<close> of \<open>row\<close> to \<^verbatim>\<open>buf.begin() + pos\<close>.\<close>

definition write_range :: "'a list \<Rightarrow> nat \<Rightarrow> 'a list \<Rightarrow> 'a list" where
  "write_range buf pos row = take pos buf @ row @ drop (pos + length row) buf"

record plane =
  planeW :: int
  planeH :: int
  scaleY :: real
  planeBuf :: "int16 list"

text \<open>The three locals \<open>sx\<close>, \<open>sy\<close>, \<open>sz\<close>.\<close>

definition viewSpacing :: "MainFrame \<Rightarrow> real \<times> real \<times> real" where
  "viewSpacing st =
     (if pxSpcX st > 0 then pxSpcX st else 1,
      if pxSpcY st > 0 then pxSpcY st else 1,
      if sliceThick st > 0 then sliceThick st else 1)"

text \<open>\<^verbatim>\<open>viewType == 0\<close>: one guarded \<^verbatim>\<open>buf.assign\<close>; \<open>buf\<close> stays empty when the guard fails.\<close>

definition extractAxial :: "MainFrame \<Rightarrow> int \<Rightarrow> error + int16 list" where
  "extractAxial st sliceIdx =
     (let w = volWidth st; h = volHeight st;
          off = sz_mul (sz_mul (to_size_t sliceIdx) (to_size_t w)) (to_size_t h)
      in if sz_add off (to_size_t (w * h)) \<le> length (volumeData st)
         then read_range (volumeData st) off (w * h)
         else Inr [])"

text \<open>\<^verbatim>\<open>viewType == 1\<close>: the body of the loop over \<open>z\<close>, one guarded \<^verbatim>\<open>std::copy\<close> per row.\<close>

definition coronalBase :: "MainFrame \<Rightarrow> int \<Rightarrow> nat \<Rightarrow> nat" where
  "coronalBase st sliceIdx z =
     sz_add (sz_mul (to_size_t (int z)) (to_size_t (volWidth st * volHeight st)))
            (sz_mul (to_size_t sliceIdx) (to_size_t (volWidth st)))"

definition coronalStep ::
  "MainFrame \<Rightarrow> int \<Rightarrow> nat \<Rightarrow> error + int16 list \<Rightarrow> error + int16 list" where
  "coronalStep st sliceIdx z acc =
     (case acc of
        Inl e \<Rightarrow> Inl e
      | Inr buf \<Rightarrow>
          (let w = volWidth st; base = coronalBase st sliceIdx z
           in if sz_add base (to_size_t w) \<le> length (volumeData st)
              then (case read_range (volumeData st) base w of
                      Inl e \<Rightarrow> Inl e
                    | Inr row \<Rightarrow> Inr (write_range buf (z * nat w) row))
              else Inr buf))"

definition extractCoronal :: "MainFrame \<Rightarrow> int \<Rightarrow> error + int16 list" where
  "extractCoronal st sliceIdx =
     (let w = volWidth st; h = volDepth st
      in fold (coronalStep st sliceIdx) [0..<nat h] (Inr (replicate (nat (w * h)) 0)))"

text \<open>
  The third branch: the body of the inner loop, one guarded element read. The read
  is inside the vector whenever the guard holds, so this branch has no error value.
\<close>

definition sagittalIdx :: "MainFrame \<Rightarrow> int \<Rightarrow> nat \<Rightarrow> nat \<Rightarrow> nat" where
  "sagittalIdx st sliceIdx z y =
     sz_add (sz_add (sz_mul (to_size_t (int z)) (to_size_t (volWidth st * volHeight st)))
                    (sz_mul (to_size_t (int y)) (to_size_t (volWidth st))))
            (to_size_t sliceIdx)"

definition sagittalStep :: "MainFrame \<Rightarrow> int \<Rightarrow> nat \<Rightarrow> nat \<Rightarrow> int16 list \<Rightarrow> int16 list" where
  "sagittalStep st sliceIdx z y buf =
     (let w = volHeight st; idx = sagittalIdx st sliceIdx z y
      in if idx < length (volumeData st)
         then buf[z * nat w + y := volumeData st ! idx]
         else buf)"

definition extractSagittal :: "MainFrame \<Rightarrow> int \<Rightarrow> int16 list" where
  "extractSagittal st sliceIdx =
     (let w = volHeight st; h = volDepth st
      in fold (\<lambda>z. fold (sagittalStep st sliceIdx z) [0..<nat w]) [0..<nat h]
           (replicate (nat (w * h)) 0))"

definition extractPlane :: "MainFrame \<Rightarrow> int \<Rightarrow> int \<Rightarrow> error + plane" where
  "extractPlane st viewType sliceIdx =
     (let sx = fst (viewSpacing st); sy = fst (snd (viewSpacing st));
          sz = snd (snd (viewSpacing st))
      in if viewType = 0
         then (case extractAxial st sliceIdx of
                 Inl e \<Rightarrow> Inl e
               | Inr buf \<Rightarrow> Inr \<lparr>planeW = volWidth st, planeH = volHeight st,
                                 scaleY = sy / sx, planeBuf = buf\<rparr>)
         else if viewType = 1
         then (case extractCoronal st sliceIdx of
                 Inl e \<Rightarrow> Inl e
               | Inr buf \<Rightarrow> Inr \<lparr>planeW = volWidth st, planeH = volDepth st,
                                 scaleY = sz / sx, planeBuf = buf\<rparr>)
         else Inr \<lparr>planeW = volHeight st, planeH = volDepth st,
                   scaleY = sz / sy, planeBuf = extractSagittal st sliceIdx\<rparr>)"

subsection \<open>Windowing (lines 546 to 557)\<close>

text \<open>
  One pass of the windowing loop. The cast \<^verbatim>\<open>(unsigned char)val\<close> of a \<^verbatim>\<open>double\<close> in
  \<open>[0, 255]\<close> drops the fraction, which is \<open>floor\<close> on that range.
\<close>

definition windowPixel :: "int \<Rightarrow> int \<Rightarrow> int16 \<Rightarrow> 8 word" where
  "windowPixel wl ww0 v =
     (let ww = (if ww0 < 1 then 1 else ww0);
          lower = real_of_int wl - real_of_int ww / 2;
          range = real_of_int ww;
          val = real_of_int (sint v)
      in word_of_int \<lfloor>if val \<le> lower then 0
                      else if val \<ge> lower + range then 255
                      else ((val - lower) / range) * 255\<rfloor>)"

text \<open>
  The transform in the words of the specification, with \<open>round\<close> in the middle branch.
\<close>

definition windowPixel_spec :: "int \<Rightarrow> int \<Rightarrow> int \<Rightarrow> int" where
  "windowPixel_spec level width0 v =
     (let width = max 1 width0;
          lower = real_of_int level - real_of_int width / 2;
          range = real_of_int width
      in if real_of_int v \<le> lower then 0
         else if real_of_int v \<ge> lower + range then 255
         else round ((real_of_int v - lower) / range * 255))"

subsection \<open>Cross-hair coordinates (lines 568 to 570, and \<^verbatim>\<open>ImagePanel::OnPaint\<close>)\<close>

text \<open>
  A \<^verbatim>\<open>double\<close> with the special values of IEEE 754. \<open>fp_div a b\<close> is
  \<^verbatim>\<open>(double)a / b\<close> for two \<^verbatim>\<open>int\<close>s: dividing by zero gives a NaN for \<open>0 / 0\<close> and an
  infinity otherwise.
\<close>

datatype fp = Fin real | PInf | NInf | NaN

definition fp_div :: "int \<Rightarrow> int \<Rightarrow> fp" where
  "fp_div a b =
     (if b = 0 then (if a = 0 then NaN else if a > 0 then PInf else NInf)
      else Fin (real_of_int a / real_of_int b))"

definition crossRel :: "int \<Rightarrow> int \<Rightarrow> fp" where
  "crossRel cross dimension = fp_div cross (dimension - 1)"

text \<open>The comparison \<^verbatim>\<open>c >= 0\<close>: false for a NaN.\<close>

fun fp_ge0 :: "fp \<Rightarrow> bool" where
  "fp_ge0 (Fin x) = (x \<ge> 0)"
| "fp_ge0 PInf = True"
| "fp_ge0 NInf = False"
| "fp_ge0 NaN = False"

text \<open>The test of \<^verbatim>\<open>OnPaint\<close> that lets the cross-hair be drawn at all.\<close>

definition crossShown :: "fp \<Rightarrow> fp \<Rightarrow> bool" where
  "crossShown crossX crossY = (fp_ge0 crossX \<and> fp_ge0 crossY)"

subsection \<open>One view\<close>

text \<open>
  What \<^verbatim>\<open>UpdateOneView\<close> hands to \<^verbatim>\<open>panel->SetImage\<close>: the grey value of each pixel (the
  three channels are equal) and the two cross-hair coordinates. \<open>None\<close> is the early
  return on an empty \<open>buf\<close>, which leaves the panel as it was. The resampling to at
  most 800 pixels per side is done by \<^verbatim>\<open>wxImage::Rescale\<close> and is left out.
\<close>

record view_image =
  imgW :: int
  imgH :: int
  gray :: "8 word list"
  relX :: fp
  relY :: fp

definition UpdateOneView ::
  "MainFrame \<Rightarrow> int \<Rightarrow> int \<Rightarrow> int \<Rightarrow> int \<Rightarrow> int \<Rightarrow> int \<Rightarrow> error + view_image option" where
  "UpdateOneView st viewType sliceIdx cross1 cross2 wl ww =
     (case extractPlane st viewType sliceIdx of
        Inl e \<Rightarrow> Inl e
      | Inr p \<Rightarrow>
          if planeBuf p = [] then Inr None
          else Inr (Some \<lparr>imgW = planeW p, imgH = planeH p,
                          gray = map (windowPixel wl ww) (planeBuf p),
                          relX = crossRel cross1 (planeW p),
                          relY = crossRel cross2 (planeH p)\<rparr>))"

subsection \<open>Auxiliary notions for the series properties\<close>

text \<open>The files of one series, in discovery order.\<close>

definition seriesMembers :: "string \<Rightarrow> dcm_file list \<Rightarrow> dcm_file list" where
  "seriesMembers u files = filter (\<lambda>f. loadGood f \<and> seriesUID f = Some u) files"

text \<open>The invariant of the scanning loop: ascending keys, no empty vector.\<close>

definition series_inv :: "(string \<times> dcm_file list) list \<Rightarrow> bool" where
  "series_inv m = (sorted_wrt (<) (map fst m) \<and> list_all (\<lambda>e. snd e \<noteq> []) m)"

text \<open>
  Series selection in the words of the specification: the partitions are kept in the
  order in which they are first encountered, and the first partition of greatest
  cardinality wins.
\<close>

fun push_series :: "'k \<Rightarrow> 'v \<Rightarrow> ('k \<times> 'v list) list \<Rightarrow> ('k \<times> 'v list) list" where
  "push_series k v [] = [(k, [v])]"
| "push_series k v ((k', vs) # m) =
     (if k = k' then (k', vs @ [v]) # m else (k', vs) # push_series k v m)"

definition partition_spec :: "dcm_file list \<Rightarrow> (string \<times> dcm_file list) list" where
  "partition_spec sources =
     foldl (\<lambda>m f. if loadGood f
                  then (case seriesUID f of Some u \<Rightarrow> push_series u f m | None \<Rightarrow> m)
                  else m) [] sources"

definition selectSeries_spec :: "dcm_file list \<Rightarrow> dcm_file list option" where
  "selectSeries_spec sources =
     (let ps = partition_spec sources
      in if ps = [] then None
         else Some (map_at ps (fst (foldl bestStep (fst (hd ps), 0) ps))))"

subsection \<open>Sample inputs\<close>

text \<open>A readable file holding one 2 by 2 image with unit spacing.\<close>

definition sampleFile :: "string \<Rightarrow> string option \<Rightarrow> int \<Rightarrow> int16 list \<Rightarrow> dcm_file" where
  "sampleFile p uid inst data =
     \<lparr>filePath = p, loadGood = True, seriesUID = uid, dsRows = 2, dsColumns = 2,
      dsPixelSpacing = Some (1, 1), dsSliceThickness = 1,
      dsPatientName = None, dsPatientID = None, dsInstanceNumber = inst,
      imgNormal = True, imgWidth = 2, imgHeight = 2, imgOutputData = Some data\<rparr>"

text \<open>Two series of one file each; the series found first has the greater identifier.\<close>

definition tieFiles :: "dcm_file list" where
  "tieFiles = [sampleFile ''1.dcm'' (Some ''B'') 1 [1, 2, 3, 4],
               sampleFile ''2.dcm'' (Some ''A'') 1 [5, 6, 7, 8]]"

text \<open>A folder whose only file loads but carries no series identifier.\<close>

definition noUidFiles :: "dcm_file list" where
  "noUidFiles = [sampleFile ''1.dcm'' None 1 [1, 2, 3, 4]]"

text \<open>
  One sort that meets \<open>std_sort_contract\<close>: insertion sort on \<open>instanceNum\<close>, which keeps
  slices with equal \<open>instanceNum\<close> in input order.
\<close>

definition insertionSort :: "SliceRaw list \<Rightarrow> SliceRaw list" where
  "insertionSort = sort_key instanceNum"

text \<open>A folder with one good file, and the frame that loading it produces.\<close>

definition goodFiles :: "dcm_file list" where
  "goodFiles = [sampleFile ''1.dcm'' (Some ''A'') 1 [1, 2, 3, 4]]"

definition loadedFrame :: MainFrame where
  "loadedFrame = initialFrame\<lparr>volumeData := [1, 2, 3, 4], volWidth := 2, volHeight := 2,
     volDepth := 1\<rparr>"

text \<open>
  A file that loads and carries a 3 by 3 header, but whose pixel data cannot be decoded
  (\<^verbatim>\<open>img.getStatus()\<close> is not \<^verbatim>\<open>EIS_Normal\<close>).
\<close>

definition brokenFile :: dcm_file where
  "brokenFile = (sampleFile ''9.dcm'' (Some ''Z'') 1 [])
     \<lparr>dsRows := 3, dsColumns := 3, dsPixelSpacing := Some (5, 5), dsSliceThickness := 7,
      dsPatientName := Some ''Other'', imgNormal := False, imgOutputData := None\<rparr>"

text \<open>
  A series of two files. The first loads, has spacing \<open>(2, 3)\<close> and slice thickness 0,
  and cannot be decoded; the second is a good file with unit spacing.
\<close>

definition headerOnlyFile :: dcm_file where
  "headerOnlyFile = (sampleFile ''1.dcm'' (Some ''A'') 1 [])
     \<lparr>dsPixelSpacing := Some (2, 3), dsSliceThickness := 0,
      imgNormal := False, imgOutputData := None\<rparr>"

definition spacingFiles :: "dcm_file list" where
  "spacingFiles = [headerOnlyFile, sampleFile ''2.dcm'' (Some ''A'') 2 [1, 2, 3, 4]]"

text \<open>Two slices found in descending order of instance number.\<close>

definition reversedFiles :: "dcm_file list" where
  "reversedFiles = [sampleFile ''1.dcm'' (Some ''A'') 2 [5, 6, 7, 8],
                    sampleFile ''2.dcm'' (Some ''A'') 1 [1, 2, 3, 4]]"

text \<open>
  A readable file of the series \<open>A\<close> holding a 1 by 1 image with the sample \<open>v\<close>, and the
  slice that the loading loop makes of it.
\<close>

definition pixelFile :: "string \<Rightarrow> int \<Rightarrow> int16 \<Rightarrow> dcm_file" where
  "pixelFile p inst v =
     \<lparr>filePath = p, loadGood = True, seriesUID = Some ''A'', dsRows = 1, dsColumns = 1,
      dsPixelSpacing = Some (1, 1), dsSliceThickness = 1,
      dsPatientName = None, dsPatientID = None, dsInstanceNumber = inst,
      imgNormal = True, imgWidth = 1, imgHeight = 1, imgOutputData = Some [v]\<rparr>"

definition slice1 :: "int \<Rightarrow> int16 \<Rightarrow> SliceRaw" where
  "slice1 inst v = \<lparr>instanceNum = inst, pixels = [v]\<rparr>"

text \<open>
  Seventeen slices that all have the instance number 0 (the value the handler keeps
  when a file has no instance number); the sample of each is its place in the folder.
\<close>

definition equalIndexSeries :: "dcm_file list" where
  "equalIndexSeries =
     [pixelFile ''01.dcm'' 0 1, pixelFile ''02.dcm'' 0 2, pixelFile ''03.dcm'' 0 3,
      pixelFile ''04.dcm'' 0 4, pixelFile ''05.dcm'' 0 5, pixelFile ''06.dcm'' 0 6,
      pixelFile ''07.dcm'' 0 7, pixelFile ''08.dcm'' 0 8, pixelFile ''09.dcm'' 0 9,
      pixelFile ''10.dcm'' 0 10, pixelFile ''11.dcm'' 0 11, pixelFile ''12.dcm'' 0 12,
      pixelFile ''13.dcm'' 0 13, pixelFile ''14.dcm'' 0 14, pixelFile ''15.dcm'' 0 15,
      pixelFile ''16.dcm'' 0 16, pixelFile ''17.dcm'' 0 17]"

text \<open>
  Seventeen slices found in descending order of instance number; the sample of each is
  its instance number.
\<close>

definition descendingSeries :: "dcm_file list" where
  "descendingSeries =
     [pixelFile ''01.dcm'' 17 17, pixelFile ''02.dcm'' 16 16, pixelFile ''03.dcm'' 15 15,
      pixelFile ''04.dcm'' 14 14, pixelFile ''05.dcm'' 13 13, pixelFile ''06.dcm'' 12 12,
      pixelFile ''07.dcm'' 11 11, pixelFile ''08.dcm'' 10 10, pixelFile ''09.dcm'' 9 9,
      pixelFile ''10.dcm'' 8 8, pixelFile ''11.dcm'' 7 7, pixelFile ''12.dcm'' 6 6,
      pixelFile ''13.dcm'' 5 5, pixelFile ''14.dcm'' 4 4, pixelFile ''15.dcm'' 3 3,
      pixelFile ''16.dcm'' 2 2, pixelFile ''17.dcm'' 1 1]"

text \<open>A 2 by 2 by 2 volume whose sample at offset \<open>i\<close> is \<open>i + 1\<close>.\<close>

definition cubeFrame :: MainFrame where
  "cubeFrame = initialFrame\<lparr>volumeData := [1, 2, 3, 4, 5, 6, 7, 8], volWidth := 2,
     volHeight := 2, volDepth := 2\<rparr>"

subsection \<open>Auxiliary notions for the loading loop\<close>

text \<open>
  Once \<^verbatim>\<open>volWidth\<close> is not zero the frame no longer changes in the loop: \<open>keeps st f\<close>
  says that \<open>f\<close> passes every test of the body, \<open>sliceOf st f\<close> is the slice it adds.
\<close>

definition keeps :: "MainFrame \<Rightarrow> dcm_file \<Rightarrow> bool" where
  "keeps st f = (loadGood f \<and> imgNormal f \<and> imgWidth f = volWidth st
                 \<and> imgHeight f = volHeight st \<and> imgOutputData f \<noteq> None)"

definition sliceOf :: "MainFrame \<Rightarrow> dcm_file \<Rightarrow> SliceRaw" where
  "sliceOf st f =
     \<lparr>instanceNum = dsInstanceNumber f,
      pixels = (case imgOutputData f of
                  Some data \<Rightarrow> take (nat (volWidth st * volHeight st)) data
                | None \<Rightarrow> [])\<rparr>"

text \<open>
  What DCMTK guarantees of a \<^verbatim>\<open>DicomImage\<close> in status \<^verbatim>\<open>EIS_Normal\<close>: both sides are
  positive, and the output buffer of the (single) frame holds width times height
  samples.
\<close>

definition image_ok :: "dcm_file \<Rightarrow> bool" where
  "image_ok f =
     (if imgNormal f
      then 0 < imgWidth f \<and> 0 < imgHeight f
           \<and> (case imgOutputData f of
                 Some data \<Rightarrow> int (length data) = imgWidth f * imgHeight f
               | None \<Rightarrow> True)
      else True)"

text \<open>
  The invariant of the loading loop over well-formed images: the sides fit
  \<^verbatim>\<open>Uint16\<close>, and every slice in \<^verbatim>\<open>tempSlices\<close> is the whole pixel buffer of one of the
  files read so far and has \<^verbatim>\<open>volWidth * volHeight\<close> samples.
\<close>

definition slice_from :: "dcm_file list \<Rightarrow> MainFrame \<Rightarrow> SliceRaw \<Rightarrow> bool" where
  "slice_from files st s =
     (int (length (pixels s)) = volWidth st * volHeight st
      \<and> (\<exists>f\<in>set files. imgOutputData f = Some (pixels s)
                        \<and> dsInstanceNumber f = instanceNum s))"

definition load_inv :: "dcm_file list \<Rightarrow> MainFrame \<times> SliceRaw list \<Rightarrow> bool" where
  "load_inv files acc =
     (0 \<le> volWidth (fst acc) \<and> volWidth (fst acc) < 2 ^ 16
      \<and> 0 \<le> volHeight (fst acc) \<and> volHeight (fst acc) < 2 ^ 16
      \<and> (snd acc \<noteq> [] \<longrightarrow> volWidth (fst acc) \<noteq> 0)
      \<and> length (snd acc) \<le> length files
      \<and> list_all (slice_from files (fst acc)) (snd acc))"

section \<open>Properties\<close>

subsection \<open>Windowing\<close>

lemma window_mid_floor:
  fixes wl ww :: int and s :: int
  assumes ww: "1 \<le> ww"
    and lo: "real_of_int wl - real_of_int ww / 2 < real_of_int s"
    and hi: "real_of_int s < real_of_int wl - real_of_int ww / 2 + real_of_int ww"
  shows "\<lfloor>(real_of_int s - (real_of_int wl - real_of_int ww / 2)) / real_of_int ww * 255\<rfloor>
           = ((2 * (s - wl) + ww) * 255) div (2 * ww)"
    and "0 \<le> \<lfloor>(real_of_int s - (real_of_int wl - real_of_int ww / 2)) / real_of_int ww * 255\<rfloor>"
    and "\<lfloor>(real_of_int s - (real_of_int wl - real_of_int ww / 2)) / real_of_int ww * 255\<rfloor> < 255"
proof -
  let ?x = "(real_of_int s - (real_of_int wl - real_of_int ww / 2)) / real_of_int ww * 255"
  let ?n = "(2 * (s - wl) + ww) * 255"
  let ?d = "2 * ww"
  have w0: "0 < real_of_int ww" using ww by simp
  have eq: "?x = real_of_int ?n / real_of_int ?d"
    using ww by (simp add: field_simps)
  show "\<lfloor>?x\<rfloor> = ?n div ?d"
    unfolding eq by (rule floor_divide_of_int_eq)
  have "0 \<le> (real_of_int s - (real_of_int wl - real_of_int ww / 2)) / real_of_int ww"
    using lo w0 by simp
  then have "0 \<le> ?x" by (rule mult_nonneg_nonneg) simp
  then show "0 \<le> \<lfloor>?x\<rfloor>" by simp
  have "real_of_int s - (real_of_int wl - real_of_int ww / 2) < real_of_int ww"
    using hi by simp
  then have "(real_of_int s - (real_of_int wl - real_of_int ww / 2)) / real_of_int ww < 1"
    using w0 by (simp add: divide_less_eq)
  then have "?x < 1 * 255" by (rule mult_strict_right_mono) simp
  then have "?x < 255" by (simp only: mult_1)
  then show "\<lfloor>?x\<rfloor> < 255" by (simp add: floor_less_iff)
qed

lemma uint_byte_of_small: "0 \<le> k \<Longrightarrow> k < 256 \<Longrightarrow> uint (word_of_int k :: 8 word) = k"
  by (simp add: uint_word_of_int take_bit_int_eq_self)

text \<open>
  Claim C3, as the code has it. With the width clamped to at least 1,
  \<open>lower = level - width / 2\<close> and \<open>range = width\<close>, a sample \<open>v \<le> lower\<close> maps to 0, a
  sample \<open>v \<ge> lower + range\<close> maps to 255, and a sample strictly in between maps to
  \<open>(v - lower) / range * 255\<close> with the fraction dropped, not rounded to the nearest
  integer. In integers that value is \<open>((2 * (v - level) + width) * 255) div (2 * width)\<close>.
\<close>

theorem windowPixel_truncates:
  fixes wl ww0 :: int and v :: int16
  assumes "ww = max 1 ww0"
    and "lower = real_of_int wl - real_of_int ww / 2"
    and "val = real_of_int (sint v)"
  shows "(val \<le> lower \<longrightarrow> windowPixel wl ww0 v = 0)
       \<and> (val \<ge> lower + real_of_int ww \<longrightarrow> windowPixel wl ww0 v = 255)
       \<and> (lower < val \<and> val < lower + real_of_int ww \<longrightarrow>
            uint (windowPixel wl ww0 v) = \<lfloor>(val - lower) / real_of_int ww * 255\<rfloor>
          \<and> uint (windowPixel wl ww0 v) = ((2 * (sint v - wl) + ww) * 255) div (2 * ww))"
proof -
  have ww1: "1 \<le> ww" using assms(1) by simp
  have wweq: "(if ww0 < 1 then 1 else ww0) = ww" using assms(1) by (simp add: max_def)
  have w0: "0 < real_of_int ww" using ww1 by simp
  have low: "val \<le> lower \<Longrightarrow> windowPixel wl ww0 v = 0"
    using assms(2,3) by (simp add: windowPixel_def wweq Let_def)
  have high: "val \<ge> lower + real_of_int ww \<Longrightarrow> windowPixel wl ww0 v = 255"
  proof -
    assume h: "val \<ge> lower + real_of_int ww"
    then have "\<not> val \<le> lower" using w0 by linarith
    with h show ?thesis using assms(2,3) by (simp add: windowPixel_def wweq Let_def)
  qed
  have mid: "uint (windowPixel wl ww0 v) = \<lfloor>(val - lower) / real_of_int ww * 255\<rfloor>
          \<and> uint (windowPixel wl ww0 v) = ((2 * (sint v - wl) + ww) * 255) div (2 * ww)"
    if h: "lower < val" "val < lower + real_of_int ww"
  proof -
    have lo: "real_of_int wl - real_of_int ww / 2 < real_of_int (sint v)"
      using h(1) assms(2,3) by simp
    have hi: "real_of_int (sint v) < real_of_int wl - real_of_int ww / 2 + real_of_int ww"
      using h(2) assms(2,3) by simp
    note fl = window_mid_floor [OF ww1 lo hi]
    have "windowPixel wl ww0 v = word_of_int \<lfloor>(val - lower) / real_of_int ww * 255\<rfloor>"
      using h assms(2,3) by (simp add: windowPixel_def wweq Let_def)
    then have "uint (windowPixel wl ww0 v) = \<lfloor>(val - lower) / real_of_int ww * 255\<rfloor>"
      using fl(2,3) assms(2,3) by (simp add: uint_byte_of_small)
    then show ?thesis using fl(1) assms(2,3) by simp
  qed
  show ?thesis using low high mid by blast
qed

text \<open>
  The three samples of the claim at level 40 and width 400: \<open>-160\<close> gives 0, 240 gives
  255, and 40 gives 127 (the exact value is 127.5).
\<close>

theorem windowPixel_truncates_witness:
  "windowPixel 40 400 (- 160) = 0 \<and> windowPixel 40 400 240 = 255
     \<and> uint (windowPixel 40 400 40) = 127"
proof -
  have a: "(400::int) = max 1 400" by simp
  have b: "(- 160 :: real) = real_of_int 40 - real_of_int 400 / 2" by simp
  have "windowPixel 40 400 (- 160) = 0"
    using windowPixel_truncates [OF a b, of "real_of_int (sint (- 160 :: int16))" "- 160"]
    by simp
  moreover have "windowPixel 40 400 240 = 255"
    using windowPixel_truncates [OF a b, of "real_of_int (sint (240 :: int16))" "240"]
    by simp
  moreover have "uint (windowPixel 40 400 40) = 127"
    using windowPixel_truncates [OF a b, of "real_of_int (sint (40 :: int16))" "40"]
    by simp
  ultimately show ?thesis by simp
qed

text \<open>
  Claim C3 as stated asks for \<open>round\<close>. At level 40 and width 400 the sample 39 has the
  exact value 126.8625: the code yields 126, rounding yields 127. The sample 40 has the
  exact value 127.5: the code yields 127, rounding yields 128.
\<close>

theorem windowPixel_round_counterexample:
  "uint (windowPixel 40 400 39) = 126 \<and> windowPixel_spec 40 400 (sint (39 :: int16)) = 127
   \<and> uint (windowPixel 40 400 40) = 127 \<and> windowPixel_spec 40 400 (sint (40 :: int16)) = 128"
  by (simp add: windowPixel_def windowPixel_spec_def round_def)

subsection \<open>Series grouping and choice\<close>

lemma map_push_keys: "fst ` set (map_push k v m) = insert k (fst ` set m)"
  by (induction m) (auto simp: rev_image_eqI split: if_splits)

lemma map_push_sorted:
  "sorted_wrt (<) (map fst m) \<Longrightarrow> sorted_wrt (<) (map fst (map_push k v m))"
proof (induction m)
  case Nil
  then show ?case by simp
next
  case (Cons e m)
  obtain k' vs where e: "e = (k', vs)" by (cases e)
  have keys: "fst ` set (map_push k v m) = insert k (fst ` set m)" by (rule map_push_keys)
  show ?case
  proof (cases "k = k'")
    case True
    with Cons.prems e show ?thesis by simp
  next
    case False
    show ?thesis
    proof (cases "k < k'")
      case True
      with Cons.prems e show ?thesis by auto
    next
      case nlt: False
      with False have gt: "k' < k" by simp
      have "sorted_wrt (<) (map fst (map_push k v m))" using Cons by simp
      moreover have "\<forall>y\<in>set (map fst (map_push k v m)). k' < y"
        using Cons.prems e gt keys by auto
      ultimately show ?thesis using e False nlt by simp
    qed
  qed
qed

lemma map_at_Cons: "map_at ((k', vs) # m) k = (if k = k' then vs else map_at m k)"
  by (simp add: map_at_def)

lemma map_at_notin: "k \<notin> fst ` set m \<Longrightarrow> map_at m k = []"
  by (simp add: map_at_def map_of_eq_None_iff[THEN iffD2])

lemma map_push_at:
  "sorted_wrt (<) (map fst m) \<Longrightarrow>
     map_at (map_push k v m) k' = (if k' = k then map_at m k @ [v] else map_at m k')"
proof (induction m)
  case Nil
  then show ?case by (simp add: map_at_def)
next
  case (Cons e m)
  obtain k0 vs where e: "e = (k0, vs)" by (cases e)
  have tl: "sorted_wrt (<) (map fst m)" and above: "\<forall>y\<in>fst ` set m. k0 < y"
    using Cons.prems e by auto
  show ?case
  proof (cases "k = k0")
    case True
    then show ?thesis using e by (simp add: map_at_Cons)
  next
    case False
    show ?thesis
    proof (cases "k < k0")
      case True
      then have "k \<notin> fst ` set m" using above by auto
      then have "map_at m k = []" by (rule map_at_notin)
      then show ?thesis using e True False by (simp add: map_at_Cons)
    next
      case nlt: False
      then show ?thesis using e False Cons.IH [OF tl]
        by (cases "k' = k") (simp_all add: map_at_Cons)
    qed
  qed
qed

lemma map_push_nonempty:
  "list_all (\<lambda>e. snd e \<noteq> []) m \<Longrightarrow> list_all (\<lambda>e. snd e \<noteq> []) (map_push k v m)"
  by (induction m) auto

lemma map_push_not_Nil: "map_push k v m \<noteq> []"
  by (cases m) (auto split: if_splits)

lemma scanStep_inv: "series_inv m \<Longrightarrow> series_inv (scanStep m f)"
  unfolding series_inv_def scanStep_def
  by (auto simp: map_push_sorted map_push_nonempty split: option.splits)

lemma scanStep_at:
  "series_inv m \<Longrightarrow> map_at (scanStep m f) u = map_at m u @ seriesMembers u [f]"
  unfolding series_inv_def scanStep_def seriesMembers_def
  by (auto simp: map_push_at split: option.splits)

lemma foldl_scanStep:
  "series_inv m \<Longrightarrow>
     series_inv (foldl scanStep m files)
     \<and> (\<forall>u. map_at (foldl scanStep m files) u = map_at m u @ seriesMembers u files)"
proof (induction files arbitrary: m)
  case Nil
  then show ?case by (simp add: seriesMembers_def)
next
  case (Cons f files)
  have inv': "series_inv (scanStep m f)" using Cons.prems by (rule scanStep_inv)
  have "seriesMembers u (f # files) = seriesMembers u [f] @ seriesMembers u files" for u
    by (simp add: seriesMembers_def)
  then show ?case
    using Cons.IH [OF inv'] scanStep_at [OF Cons.prems] by simp
qed

lemma series_inv_Nil: "series_inv []"
  by (simp add: series_inv_def)

lemma groupSeries_inv: "series_inv (groupSeries files)"
  unfolding groupSeries_def using foldl_scanStep [OF series_inv_Nil] by blast

lemma groupSeries_at: "map_at (groupSeries files) u = seriesMembers u files"
  unfolding groupSeries_def using foldl_scanStep [OF series_inv_Nil, of files]
  by (simp add: map_at_def)

lemma series_inv_entry:
  assumes "series_inv m" "(k, vs) \<in> set m"
  shows "map_at m k = vs" "vs \<noteq> []"
proof -
  have "distinct (map fst m)"
    using assms(1) by (simp add: series_inv_def strict_sorted_iff)
  then have "map_of m k = Some vs" using assms(2) by simp
  then show "map_at m k = vs" by (simp add: map_at_def)
  show "vs \<noteq> []" using assms by (auto simp: series_inv_def list_all_iff)
qed

lemma series_inv_key_iff:
  assumes "series_inv m"
  shows "k \<in> fst ` set m \<longleftrightarrow> map_at m k \<noteq> []"
proof
  assume "k \<in> fst ` set m"
  then obtain vs where "(k, vs) \<in> set m" by auto
  then show "map_at m k \<noteq> []" using series_inv_entry [OF assms] by metis
next
  assume "map_at m k \<noteq> []"
  then show "k \<in> fst ` set m" using map_at_notin by metis
qed

text \<open>The loop that picks the best series, from any starting pair.\<close>

lemma foldl_bestStep:
  fixes m :: "('k::linorder \<times> 'v list) list"
  assumes "sorted_wrt (<) (map fst m)"
  shows "(if \<forall>e\<in>set m. length (snd e) \<le> c
          then foldl bestStep (b, c) m = (b, c)
          else \<exists>vs. (fst (foldl bestStep (b, c) m), vs) \<in> set m
                 \<and> snd (foldl bestStep (b, c) m) = length vs
                 \<and> c < length vs
                 \<and> (\<forall>e\<in>set m. length (snd e) \<le> length vs)
                 \<and> (\<forall>e\<in>set m. length (snd e) = length vs
                        \<longrightarrow> fst (foldl bestStep (b, c) m) \<le> fst e))"
  using assms
proof (induction m arbitrary: b c)
  case Nil
  then show ?case by simp
next
  case (Cons e m)
  obtain k vs where e: "e = (k, vs)" by (cases e)
  have tl: "sorted_wrt (<) (map fst m)" and above: "\<forall>e'\<in>set m. k < fst e'"
    using Cons.prems e by auto
  show ?case
  proof (cases "c < length vs")
    case True
    then have step: "foldl bestStep (b, c) (e # m) = foldl bestStep (k, length vs) m"
      using e by (simp add: bestStep_def)
    note IH = Cons.IH [OF tl, of "length vs" k]
    show ?thesis
    proof (cases "\<forall>e'\<in>set m. length (snd e') \<le> length vs")
      case all: True
      then have r: "foldl bestStep (k, length vs) m = (k, length vs)" using IH by simp
      have "\<not> (\<forall>e'\<in>set (e # m). length (snd e') \<le> c)" using True e by auto
      moreover have "(k, vs) \<in> set (e # m)" using e by simp
      moreover have "\<forall>e'\<in>set (e # m). length (snd e') \<le> length vs" using all e by simp
      moreover have "\<forall>e'\<in>set (e # m). length (snd e') = length vs \<longrightarrow> k \<le> fst e'"
        using above e by auto
      ultimately show ?thesis unfolding step r using True by auto
    next
      case some: False
      then obtain ws where ws: "(fst (foldl bestStep (k, length vs) m), ws) \<in> set m"
          "snd (foldl bestStep (k, length vs) m) = length ws" "length vs < length ws"
          "\<forall>e'\<in>set m. length (snd e') \<le> length ws"
          "\<forall>e'\<in>set m. length (snd e') = length ws
              \<longrightarrow> fst (foldl bestStep (k, length vs) m) \<le> fst e'"
        using IH [unfolded if_not_P [OF some]] by blast
      have "\<not> (\<forall>e'\<in>set (e # m). length (snd e') \<le> c)" using True e by auto
      moreover have "c < length ws" using True ws(3) by simp
      moreover have "\<forall>e'\<in>set (e # m). length (snd e') \<le> length ws"
        using ws(3,4) e by simp
      moreover have "\<forall>e'\<in>set (e # m). length (snd e') = length ws
              \<longrightarrow> fst (foldl bestStep (k, length vs) m) \<le> fst e'"
        using ws(3,5) e by simp
      ultimately show ?thesis unfolding step using ws(1,2) by auto
    qed
  next
    case False
    then have step: "foldl bestStep (b, c) (e # m) = foldl bestStep (b, c) m"
      using e by (simp add: bestStep_def)
    note IH = Cons.IH [OF tl, of c b]
    show ?thesis
    proof (cases "\<forall>e'\<in>set m. length (snd e') \<le> c")
      case True
      then show ?thesis unfolding step using IH False e by simp
    next
      case some: False
      then obtain ws where ws: "(fst (foldl bestStep (b, c) m), ws) \<in> set m"
          "snd (foldl bestStep (b, c) m) = length ws" "c < length ws"
          "\<forall>e'\<in>set m. length (snd e') \<le> length ws"
          "\<forall>e'\<in>set m. length (snd e') = length ws
              \<longrightarrow> fst (foldl bestStep (b, c) m) \<le> fst e'"
        using IH [unfolded if_not_P [OF some]] by blast
      have "\<not> (\<forall>e'\<in>set (e # m). length (snd e') \<le> c)" using some by auto
      moreover have "\<forall>e'\<in>set (e # m). length (snd e') \<le> length ws"
        using ws(3,4) False e by simp
      moreover have "\<forall>e'\<in>set (e # m). length (snd e') = length ws
              \<longrightarrow> fst (foldl bestStep (b, c) m) \<le> fst e'"
        using ws(3,5) False e by simp
      ultimately show ?thesis unfolding step using ws(1,2,3) by auto
    qed
  qed
qed

lemma bestUID_groupSeries:
  assumes "groupSeries files \<noteq> []"
  shows "seriesMembers (bestUID (groupSeries files)) files \<noteq> []"
    and "length (seriesMembers u files) \<le> length (seriesMembers (bestUID (groupSeries files)) files)"
    and "length (seriesMembers u files) = length (seriesMembers (bestUID (groupSeries files)) files)
           \<Longrightarrow> bestUID (groupSeries files) \<le> u"
proof -
  let ?G = "groupSeries files"
  let ?b = "bestUID ?G"
  have inv: "series_inv ?G" by (rule groupSeries_inv)
  then have srt: "sorted_wrt (<) (map fst ?G)" by (simp add: series_inv_def)
  obtain k0 v0 where "(k0, v0) \<in> set ?G" using assms by (cases ?G) auto
  then have "v0 \<noteq> []" "(k0, v0) \<in> set ?G" using series_inv_entry [OF inv] by auto
  then have neg: "\<not> (\<forall>e\<in>set ?G. length (snd e) \<le> 0)" by force
  note fb = foldl_bestStep [OF srt, of 0 "[]", unfolded if_not_P [OF neg]]
  obtain vs where vs: "(?b, vs) \<in> set ?G"
      "\<forall>e\<in>set ?G. length (snd e) \<le> length vs"
      "\<forall>e\<in>set ?G. length (snd e) = length vs \<longrightarrow> ?b \<le> fst e"
    using fb unfolding bestUID_def by blast
  have mem: "seriesMembers ?b files = vs"
    using series_inv_entry(1) [OF inv vs(1)] by (simp add: groupSeries_at)
  have ne: "vs \<noteq> []" using series_inv_entry(2) [OF inv vs(1)] .
  show "seriesMembers ?b files \<noteq> []" using mem ne by simp
  have entry: "(u, seriesMembers u files) \<in> set ?G" if "seriesMembers u files \<noteq> []"
  proof -
    have "u \<in> fst ` set ?G"
      using that series_inv_key_iff [OF inv, of u] by (simp add: groupSeries_at)
    then obtain ws where ws: "(u, ws) \<in> set ?G" by auto
    then have "seriesMembers u files = ws"
      using series_inv_entry(1) [OF inv ws] by (simp add: groupSeries_at)
    then show ?thesis using ws by simp
  qed
  show "length (seriesMembers u files) \<le> length (seriesMembers ?b files)"
  proof (cases "seriesMembers u files = []")
    case True
    then show ?thesis by simp
  next
    case False
    then show ?thesis using entry vs(2) mem by fastforce
  qed
  show "?b \<le> u" if "length (seriesMembers u files) = length (seriesMembers ?b files)"
  proof -
    have "seriesMembers u files \<noteq> []" using that mem ne by auto
    then have "(u, seriesMembers u files) \<in> set ?G" by (rule entry)
    then show ?thesis using vs(3) that mem by fastforce
  qed
qed

lemma groupSeries_Nil_iff:
  "groupSeries files = [] \<longleftrightarrow> (\<forall>u. seriesMembers u files = [])"
proof
  assume "groupSeries files = []"
  then show "\<forall>u. seriesMembers u files = []"
    using groupSeries_at [of files] by (simp add: map_at_def)
next
  assume a: "\<forall>u. seriesMembers u files = []"
  show "groupSeries files = []"
  proof (rule ccontr)
    assume "groupSeries files \<noteq> []"
    then show False using bestUID_groupSeries(1) a by blast
  qed
qed

text \<open>
  Claim C2, as the code has it. When at least one file loads and carries a series
  identifier, the selection returns the members, in discovery order, of a series \<open>u\<close> of
  greatest cardinality; among the series of that cardinality \<open>u\<close> is the least identifier
  in the byte-wise lexicographic order of \<^verbatim>\<open>std::string\<close>, which is the order in which
  \<^verbatim>\<open>std::map\<close> is traversed. The order of discovery plays no part in a tie.
\<close>

theorem selectSeries_largest_least_uid:
  assumes "\<exists>f\<in>set files. loadGood f \<and> seriesUID f \<noteq> None"
  shows "\<exists>u. selectSeries files = Some (seriesMembers u files)
           \<and> seriesMembers u files \<noteq> []
           \<and> (\<forall>u'. length (seriesMembers u' files) \<le> length (seriesMembers u files))
           \<and> (\<forall>u'. length (seriesMembers u' files) = length (seriesMembers u files)
                  \<longrightarrow> u \<le> u')"
proof -
  obtain f u0 where f: "f \<in> set files" "loadGood f" "seriesUID f = Some u0"
    using assms by auto
  then have "f \<in> set (seriesMembers u0 files)" by (simp add: seriesMembers_def)
  then have "seriesMembers u0 files \<noteq> []" by auto
  then have G: "groupSeries files \<noteq> []" using groupSeries_Nil_iff by blast
  have files: "files \<noteq> []" using f(1) by auto
  let ?b = "bestUID (groupSeries files)"
  have "selectSeries files = Some (seriesMembers ?b files)"
    using G files by (simp add: selectSeries_def groupSeries_at)
  then show ?thesis
    using bestUID_groupSeries [OF G] by blast
qed

text \<open>The theorem at \<open>tieFiles\<close>.\<close>

theorem selectSeries_largest_least_uid_witness:
  "(\<exists>f\<in>set tieFiles. loadGood f \<and> seriesUID f \<noteq> None)
   \<and> (\<exists>u. selectSeries tieFiles = Some (seriesMembers u tieFiles)
           \<and> seriesMembers u tieFiles \<noteq> []
           \<and> (\<forall>u'. length (seriesMembers u' tieFiles) \<le> length (seriesMembers u tieFiles))
           \<and> (\<forall>u'. length (seriesMembers u' tieFiles) = length (seriesMembers u tieFiles)
                  \<longrightarrow> u \<le> u'))"
proof -
  have h: "\<exists>f\<in>set tieFiles. loadGood f \<and> seriesUID f \<noteq> None"
    by (simp add: tieFiles_def sampleFile_def)
  show ?thesis using h selectSeries_largest_least_uid [OF h] by simp
qed

text \<open>
  Claim C2 as stated breaks a tie in favour of the series discovered first. In
  \<open>tieFiles\<close> the series \<open>B\<close> is discovered first and \<open>A\<close> second, each with one file:
  the code selects the file of \<open>A\<close>, the rule of the specification that of \<open>B\<close>.
\<close>

theorem selectSeries_tie_counterexample:
  "selectSeries tieFiles = Some [sampleFile ''2.dcm'' (Some ''A'') 1 [5, 6, 7, 8]]
   \<and> selectSeries_spec tieFiles = Some [sampleFile ''1.dcm'' (Some ''B'') 1 [1, 2, 3, 4]]"
  by (simp add: selectSeries_def selectSeries_spec_def partition_spec_def groupSeries_def
      scanStep_def bestUID_def bestStep_def map_at_def tieFiles_def sampleFile_def)

text \<open>
  Claim C10. The vector stored for a series \<open>u\<close> holds exactly the files that load and
  carry the identifier \<open>u\<close>, so a file without identifier is in no partition; grouping a
  folder gives the same map as grouping it without such files; and when no file carries
  an identifier the handler returns before touching the frame, whatever loaded.
\<close>

theorem unreadable_uid_excluded:
  "map_at (groupSeries files) u = filter (\<lambda>f. loadGood f \<and> seriesUID f = Some u) files
   \<and> groupSeries files = groupSeries (filter (\<lambda>f. seriesUID f \<noteq> None) files)
   \<and> ((\<forall>f\<in>set files. seriesUID f = None) \<longrightarrow>
         selectSeries files = None \<and> OnLoadBtn srt st files = (NoSeries, st))"
proof -
  have a: "map_at (groupSeries files) u = filter (\<lambda>f. loadGood f \<and> seriesUID f = Some u) files"
    by (simp add: groupSeries_at seriesMembers_def)
  have skip: "foldl scanStep m files = foldl scanStep m (filter (\<lambda>f. seriesUID f \<noteq> None) files)"
    for m
    by (induction files arbitrary: m) (auto simp: scanStep_def)
  have b: "groupSeries files = groupSeries (filter (\<lambda>f. seriesUID f \<noteq> None) files)"
    unfolding groupSeries_def by (rule skip)
  have c: "selectSeries files = None \<and> OnLoadBtn srt st files = (NoSeries, st)"
    if h: "\<forall>f\<in>set files. seriesUID f = None"
  proof -
    have "filter (\<lambda>f. seriesUID f \<noteq> None) files = []" using h by (simp add: filter_empty_conv)
    then have "groupSeries files = []" using b by (simp add: groupSeries_def)
    then have "selectSeries files = None" by (simp add: selectSeries_def)
    then show ?thesis by (simp add: OnLoadBtn_def)
  qed
  show ?thesis using a b c by blast
qed

text \<open>The theorem at \<open>noUidFiles\<close>, whose file does load.\<close>

theorem unreadable_uid_excluded_witness:
  "(\<exists>f\<in>set noUidFiles. loadGood f \<and> seriesUID f = None)
   \<and> selectSeries noUidFiles = None
   \<and> OnLoadBtn insertionSort initialFrame noUidFiles = (NoSeries, initialFrame)"
proof -
  have h: "\<forall>f\<in>set noUidFiles. seriesUID f = None"
    by (simp add: noUidFiles_def sampleFile_def)
  have g: "\<exists>f\<in>set noUidFiles. loadGood f \<and> seriesUID f = None"
    by (simp add: noUidFiles_def sampleFile_def)
  show ?thesis
    using h g unreadable_uid_excluded [of noUidFiles "[]" insertionSort initialFrame] by blast
qed

subsection \<open>Cross-hair coordinates\<close>

text \<open>
  Claim C7, as the code has it. For a dimension \<open>d > 1\<close> the coordinate is
  \<open>index / (d - 1)\<close>: exactly 0 at index 0 and exactly 1 at index \<open>d - 1\<close>. For \<open>d = 1\<close>
  there is no guard and no sentinel: the division by zero is carried out and gives a
  NaN at index 0 and an infinity at a positive index. A NaN fails the test
  \<^verbatim>\<open>crossX >= 0 && crossY >= 0\<close> of the panel, so no cross-hair is drawn for it.
\<close>

theorem crossRel_ends:
  "(1 < d \<longrightarrow> crossRel 0 d = Fin 0 \<and> crossRel (d - 1) d = Fin 1
              \<and> crossRel i d = Fin (real_of_int i / real_of_int (d - 1)))
   \<and> crossRel 0 1 = NaN
   \<and> (0 < i \<longrightarrow> crossRel i 1 = PInf)
   \<and> \<not> crossShown (crossRel 0 1) c \<and> \<not> crossShown c (crossRel 0 1)"
  by (simp add: crossRel_def fp_div_def crossShown_def)

text \<open>The theorem at dimension 5 and index 2.\<close>

theorem crossRel_ends_witness:
  "(1::int) < 5 \<and> crossRel 0 5 = Fin 0 \<and> crossRel 4 5 = Fin 1 \<and> crossRel 2 5 = Fin (1 / 2)
   \<and> crossRel 2 1 = PInf"
  using crossRel_ends [of 5 2] by simp

text \<open>
  Claim C7 as stated asks for a sentinel that is not a NaN when the dimension is 1,
  reached without dividing by zero. The code returns the NaN of \<open>0 / 0\<close>.
\<close>

theorem crossRel_unit_dimension_counterexample:
  "crossRel 0 1 = NaN \<and> fp_div 0 (1 - 1) = NaN"
  by (simp add: crossRel_def fp_div_def)

subsection \<open>Loading and packing\<close>

text \<open>The definitions that a concrete run of the load handler unfolds.\<close>

lemmas eval_defs = OnLoadBtn_def selectSeries_def groupSeries_def scanStep_def bestUID_def
  bestStep_def map_at_def buildVolume_def loadSlices_def loadStep_def readHeader_def
  sampleFile_def initialFrame_def Let_def

lemma contract_insertionSort: "std_sort_contract insertionSort"
  by (simp add: std_sort_contract_def insertionSort_def)

lemma loadStep_frozen:
  "volWidth st \<noteq> 0 \<Longrightarrow>
     loadStep (st, temp) f = (st, temp @ map (sliceOf st) (filter (keeps st) [f]))"
  by (auto simp: loadStep_def keeps_def sliceOf_def Let_def split: option.splits)

lemma foldl_loadStep_frozen:
  "volWidth st \<noteq> 0 \<Longrightarrow>
     foldl loadStep (st, temp) files
       = (st, temp @ map (sliceOf st) (filter (keeps st) files))"
proof (induction files arbitrary: temp)
  case Nil
  then show ?case by simp
next
  case (Cons f files)
  show ?case
    using Cons.IH [OF Cons.prems] loadStep_frozen [OF Cons.prems, of temp f] by simp
qed

lemma loadStep_unreadable: "\<not> loadGood f \<Longrightarrow> loadStep acc f = acc"
  by (simp add: loadStep_def Let_def)

lemma foldl_loadStep_unreadable:
  "\<forall>f\<in>set files. \<not> loadGood f \<Longrightarrow> foldl loadStep acc files = acc"
  by (induction files arbitrary: acc) (simp_all add: loadStep_unreadable)

lemma loadStep_header:
  "loadGood g \<Longrightarrow> volWidth st = 0 \<Longrightarrow> fst (loadStep (st, temp) g) = readHeader st g"
  by (simp add: loadStep_def Let_def split: option.splits)

lemma readHeader_fields:
  "volWidth (readHeader st g) = uint (dsColumns g)"
  "volHeight (readHeader st g) = uint (dsRows g)"
  "sliceThick (readHeader st g) = dsSliceThickness g"
  "pxSpcY (readHeader st g) = (case dsPixelSpacing g of Some sp \<Rightarrow> fst sp | None \<Rightarrow> pxSpcY st)"
  "pxSpcX (readHeader st g) = (case dsPixelSpacing g of Some sp \<Rightarrow> snd sp | None \<Rightarrow> pxSpcX st)"
  "volumeData (readHeader st g) = volumeData st"
  "volDepth (readHeader st g) = volDepth st"
  by (simp_all add: readHeader_def Let_def split: option.splits prod.splits)

lemma loadSlices_first_loaded:
  assumes "find loadGood targetFiles = Some g" and "dsColumns g \<noteq> 0"
  shows "fst (loadSlices st targetFiles) = readHeader (st\<lparr>volWidth := 0, volHeight := 0\<rparr>) g"
proof -
  obtain i where i: "i < length targetFiles" "loadGood (targetFiles ! i)"
      "g = targetFiles ! i" "\<forall>j<i. \<not> loadGood (targetFiles ! j)"
    using assms(1) unfolding find_Some_iff by blast
  let ?pre = "take i targetFiles" and ?post = "drop (Suc i) targetFiles"
  let ?st0 = "st\<lparr>volWidth := 0, volHeight := 0\<rparr>"
  have split: "targetFiles = ?pre @ g # ?post"
    using i(1,3) by (simp add: id_take_nth_drop)
  have pre: "\<forall>f\<in>set ?pre. \<not> loadGood f"
  proof
    fix f assume "f \<in> set ?pre"
    then obtain j where "j < length ?pre" "f = ?pre ! j" by (auto simp: in_set_conv_nth)
    then show "\<not> loadGood f" using i(1,4) by simp
  qed
  obtain st1 temp1 where s1: "loadStep (?st0, []) g = (st1, temp1)" by (cases "loadStep (?st0, []) g")
  have st1: "st1 = readHeader ?st0 g"
    using loadStep_header [of g ?st0 "[]"] i(2,3) s1 by simp
  have nz: "volWidth st1 \<noteq> 0"
    using assms(2) st1 by (simp add: readHeader_fields uint_0_iff)
  have "loadSlices st targetFiles = foldl loadStep (?st0, []) (?pre @ g # ?post)"
    using split by (simp add: loadSlices_def)
  also have "\<dots> = foldl loadStep (st1, temp1) ?post"
    using foldl_loadStep_unreadable [OF pre] s1 by simp
  also have "\<dots> = (st1, temp1 @ map (sliceOf st1) (filter (keeps st1) ?post))"
    by (rule foldl_loadStep_frozen [OF nz])
  finally show ?thesis using st1 by simp
qed

text \<open>
  Claim C9, as the code has it. After a successful build the recorded slice thickness is
  that of the first file of the series that loads, whether or not that file is then
  retained (its \<^verbatim>\<open>Columns\<close> being non-zero); the recorded in-plane spacing is that
  file's too when it has one, and otherwise the spacing the frame held before. The
  values are recorded as read. Each render then works with \<open>viewSpacing\<close>, in which a
  value that is not positive is replaced by 1.
\<close>

theorem recorded_spacing_from_first_loaded:
  assumes "find loadGood targetFiles = Some g" and "dsColumns g \<noteq> 0"
    and "buildVolume srt st targetFiles = (Loaded, st')"
  shows "sliceThick st' = dsSliceThickness g
       \<and> pxSpcY st' = (case dsPixelSpacing g of Some sp \<Rightarrow> fst sp | None \<Rightarrow> pxSpcY st)
       \<and> pxSpcX st' = (case dsPixelSpacing g of Some sp \<Rightarrow> snd sp | None \<Rightarrow> pxSpcX st)
       \<and> viewSpacing st' = (if pxSpcX st' > 0 then pxSpcX st' else 1,
                             if pxSpcY st' > 0 then pxSpcY st' else 1,
                             if sliceThick st' > 0 then sliceThick st' else 1)"
proof -
  let ?st0 = "st\<lparr>volWidth := 0, volHeight := 0\<rparr>"
  have hd: "fst (loadSlices st targetFiles) = readHeader ?st0 g"
    using assms(1,2) by (rule loadSlices_first_loaded)
  have "st' = (fst (loadSlices st targetFiles))
           \<lparr>volDepth := int (length (srt (snd (loadSlices st targetFiles)))),
            volumeData := concat (map pixels (srt (snd (loadSlices st targetFiles))))\<rparr>"
    using assms(3) by (simp add: buildVolume_def Let_def split: if_splits)
  then have "sliceThick st' = sliceThick (readHeader ?st0 g)"
    "pxSpcY st' = pxSpcY (readHeader ?st0 g)" "pxSpcX st' = pxSpcX (readHeader ?st0 g)"
    using hd by simp_all
  then show ?thesis by (simp add: readHeader_fields viewSpacing_def split: option.splits)
qed

text \<open>The theorem at \<open>spacingFiles\<close>.\<close>

theorem recorded_spacing_from_first_loaded_witness:
  "find loadGood spacingFiles = Some headerOnlyFile \<and> dsColumns headerOnlyFile \<noteq> 0
   \<and> fst (buildVolume insertionSort initialFrame spacingFiles) = Loaded
   \<and> sliceThick (snd (buildVolume insertionSort initialFrame spacingFiles)) = 0
   \<and> pxSpcY (snd (buildVolume insertionSort initialFrame spacingFiles)) = 2
   \<and> pxSpcX (snd (buildVolume insertionSort initialFrame spacingFiles)) = 3
   \<and> viewSpacing (snd (buildVolume insertionSort initialFrame spacingFiles)) = (3, 2, 1)"
proof -
  have a: "find loadGood spacingFiles = Some headerOnlyFile"
    by (simp add: spacingFiles_def headerOnlyFile_def sampleFile_def)
  have b: "dsColumns headerOnlyFile \<noteq> 0"
    by (simp add: headerOnlyFile_def sampleFile_def)
  have c: "fst (buildVolume insertionSort initialFrame spacingFiles) = Loaded"
    by (simp add: eval_defs spacingFiles_def headerOnlyFile_def insertionSort_def)
  then have d: "buildVolume insertionSort initialFrame spacingFiles
           = (Loaded, snd (buildVolume insertionSort initialFrame spacingFiles))"
    by (metis prod.collapse)
  have e: "dsPixelSpacing headerOnlyFile = Some (2, 3)" "dsSliceThickness headerOnlyFile = 0"
    by (simp_all add: headerOnlyFile_def sampleFile_def)
  show ?thesis
    using a b c e recorded_spacing_from_first_loaded [OF a b d] by simp
qed

text \<open>
  Claim C9 as stated takes the spacing from the first retained source and records 1.0
  for a value that is not positive. In \<open>spacingFiles\<close> the only retained source is the
  second file, with spacing \<open>(1, 1)\<close> and thickness 1; the frame records the spacing
  \<open>(2, 3)\<close> of the first file and the thickness 0.
\<close>

theorem spacing_source_counterexample:
  "fst (OnLoadBtn insertionSort initialFrame spacingFiles) = Loaded
   \<and> snd (loadSlices initialFrame spacingFiles)
       = [\<lparr>instanceNum = 2, pixels = [1, 2, 3, 4]\<rparr>]
   \<and> dsPixelSpacing (spacingFiles ! 1) = Some (1, 1)
   \<and> dsSliceThickness (spacingFiles ! 1) = 1
   \<and> pxSpcY (snd (OnLoadBtn insertionSort initialFrame spacingFiles)) = 2
   \<and> pxSpcX (snd (OnLoadBtn insertionSort initialFrame spacingFiles)) = 3
   \<and> sliceThick (snd (OnLoadBtn insertionSort initialFrame spacingFiles)) = 0"
  by (simp add: eval_defs spacingFiles_def headerOnlyFile_def insertionSort_def)

lemma filter_eq_singleton: "distinct xs \<Longrightarrow> k \<in> set xs \<Longrightarrow> filter (\<lambda>x. x = k) xs = [k]"
  by (induction xs) (auto simp: filter_empty_conv)

text \<open>The two series of seventeen slices, loaded and sorted by \<open>stdSort\<close>.\<close>

lemma equalIndexSeries_selected: "selectSeries equalIndexSeries = Some equalIndexSeries"
  by (simp add: selectSeries_def groupSeries_def scanStep_def bestUID_def bestStep_def
      map_at_def equalIndexSeries_def pixelFile_def)

lemma equalIndexSeries_slices:
  "snd (loadSlices initialFrame equalIndexSeries)
     = [slice1 0 1, slice1 0 2, slice1 0 3, slice1 0 4, slice1 0 5, slice1 0 6, slice1 0 7,
        slice1 0 8, slice1 0 9, slice1 0 10, slice1 0 11, slice1 0 12, slice1 0 13,
        slice1 0 14, slice1 0 15, slice1 0 16, slice1 0 17]"
  by (simp add: loadSlices_def loadStep_def readHeader_def equalIndexSeries_def pixelFile_def
      initialFrame_def slice1_def Let_def)

lemma equalIndexSeries_sorted:
  "stdSort [slice1 0 1, slice1 0 2, slice1 0 3, slice1 0 4, slice1 0 5, slice1 0 6,
            slice1 0 7, slice1 0 8, slice1 0 9, slice1 0 10, slice1 0 11, slice1 0 12,
            slice1 0 13, slice1 0 14, slice1 0 15, slice1 0 16, slice1 0 17]
     = [slice1 0 9, slice1 0 17, slice1 0 16, slice1 0 15, slice1 0 14, slice1 0 13,
        slice1 0 12, slice1 0 11, slice1 0 10, slice1 0 1, slice1 0 8, slice1 0 7,
        slice1 0 6, slice1 0 5, slice1 0 4, slice1 0 3, slice1 0 2]"
  unfolding stdSort_def by code_simp

lemma descendingSeries_slices:
  "snd (loadSlices initialFrame descendingSeries)
     = [slice1 17 17, slice1 16 16, slice1 15 15, slice1 14 14, slice1 13 13, slice1 12 12,
        slice1 11 11, slice1 10 10, slice1 9 9, slice1 8 8, slice1 7 7, slice1 6 6,
        slice1 5 5, slice1 4 4, slice1 3 3, slice1 2 2, slice1 1 1]"
  by (simp add: loadSlices_def loadStep_def readHeader_def descendingSeries_def pixelFile_def
      initialFrame_def slice1_def Let_def)

lemma descendingSeries_sorted:
  "stdSort [slice1 17 17, slice1 16 16, slice1 15 15, slice1 14 14, slice1 13 13,
            slice1 12 12, slice1 11 11, slice1 10 10, slice1 9 9, slice1 8 8, slice1 7 7,
            slice1 6 6, slice1 5 5, slice1 4 4, slice1 3 3, slice1 2 2, slice1 1 1]
     = rev [slice1 17 17, slice1 16 16, slice1 15 15, slice1 14 14, slice1 13 13,
            slice1 12 12, slice1 11 11, slice1 10 10, slice1 9 9, slice1 8 8, slice1 7 7,
            slice1 6 6, slice1 5 5, slice1 4 4, slice1 3 3, slice1 2 2, slice1 1 1]"
  unfolding stdSort_def by code_simp

text \<open>
  Claim C6, as the code has it. The sort of line 480 is \<^verbatim>\<open>std::sort\<close>, which is not a
  stable sort. Whenever the call hands the retained slices back rearranged in ascending
  order of instance number, as the C++ standard requires of it, a successful build
  packs each retained slice exactly once in that order and the depth is their count;
  when the instance numbers are pairwise distinct that order is the only one. Nothing
  is promised on the relative order of slices with equal instance number.
\<close>

theorem packed_in_ascending_order:
  assumes "mset (srt (snd (loadSlices st targetFiles))) = mset (snd (loadSlices st targetFiles))"
    and "sorted (map instanceNum (srt (snd (loadSlices st targetFiles))))"
    and "buildVolume srt st targetFiles = (Loaded, st')"
  shows "\<exists>order. mset order = mset (snd (loadSlices st targetFiles))
           \<and> sorted (map instanceNum order)
           \<and> volumeData st' = concat (map pixels order)
           \<and> volDepth st' = int (length order)
           \<and> (distinct (map instanceNum (snd (loadSlices st targetFiles)))
                \<longrightarrow> order = sort_key instanceNum (snd (loadSlices st targetFiles)))"
proof -
  let ?temp = "snd (loadSlices st targetFiles)"
  let ?order = "srt ?temp"
  note ms = assms(1) and so = assms(2)
  have st': "st' = (fst (loadSlices st targetFiles))
           \<lparr>volDepth := int (length ?order), volumeData := concat (map pixels ?order)\<rparr>"
    using assms(3) by (simp add: buildVolume_def Let_def split: if_splits)
  have uniq: "?order = sort_key instanceNum ?temp" if d: "distinct (map instanceNum ?temp)"
  proof -
    have inj: "inj_on instanceNum (set ?temp)" and dt: "distinct ?temp"
      using d by (simp_all add: distinct_map)
    have seteq: "set ?order = set ?temp" using ms by (rule mset_eq_setD)
    have do: "distinct ?order" using ms dt by (metis mset_eq_imp_distinct_iff)
    have "sort_key instanceNum ?temp = ?order"
    proof (rule properties_for_sort_key [OF ms _ so])
      fix k assume k: "k \<in> set ?order"
      have "filter (\<lambda>x. instanceNum k = instanceNum x) ?order = filter (\<lambda>x. x = k) ?order"
        by (rule filter_cong) (use k seteq inj in \<open>auto dest: inj_onD\<close>)
      moreover have "filter (\<lambda>x. instanceNum k = instanceNum x) ?temp = filter (\<lambda>x. x = k) ?temp"
        by (rule filter_cong) (use k seteq inj in \<open>auto dest: inj_onD\<close>)
      moreover have "filter (\<lambda>x. x = k) ?order = [k]"
        using do k by (rule filter_eq_singleton)
      moreover have "filter (\<lambda>x. x = k) ?temp = [k]"
        using dt k seteq by (simp add: filter_eq_singleton)
      ultimately show "filter (\<lambda>x. instanceNum k = instanceNum x) ?order
                     = filter (\<lambda>x. instanceNum k = instanceNum x) ?temp"
        by simp
    qed
    then show ?thesis by simp
  qed
  show ?thesis
    using ms so st' uniq by (intro exI [of _ ?order]) simp
qed

text \<open>
  The theorem at \<open>descendingSeries\<close> with the sort of libstdc++, which takes the
  seventeen slices through one partition.
\<close>

theorem packed_in_ascending_order_witness:
  "distinct (map instanceNum (snd (loadSlices initialFrame descendingSeries)))
   \<and> fst (buildVolume stdSort initialFrame descendingSeries) = Loaded
   \<and> (\<exists>order. mset order = mset (snd (loadSlices initialFrame descendingSeries))
          \<and> sorted (map instanceNum order)
          \<and> volumeData (snd (buildVolume stdSort initialFrame descendingSeries))
              = concat (map pixels order)
          \<and> order = sort_key instanceNum (snd (loadSlices initialFrame descendingSeries)))
   \<and> volumeData (snd (buildVolume stdSort initialFrame descendingSeries))
       = [1, 2, 3, 4, 5, 6, 7, 8, 9, 10, 11, 12, 13, 14, 15, 16, 17]"
proof -
  let ?temp = "snd (loadSlices initialFrame descendingSeries)"
  have h1: "mset (stdSort ?temp) = mset ?temp"
    by (simp only: descendingSeries_slices descendingSeries_sorted mset_rev)
  have h2: "sorted (map instanceNum (stdSort ?temp))"
    by (simp only: descendingSeries_slices descendingSeries_sorted) (simp add: slice1_def)
  have l: "fst (buildVolume stdSort initialFrame descendingSeries) = Loaded"
    by (simp add: buildVolume_def Let_def descendingSeries_slices)
  then have h3: "buildVolume stdSort initialFrame descendingSeries
           = (Loaded, snd (buildVolume stdSort initialFrame descendingSeries))"
    by (metis prod.collapse)
  have d: "distinct (map instanceNum ?temp)"
    by (simp add: descendingSeries_slices slice1_def)
  have v: "volumeData (snd (buildVolume stdSort initialFrame descendingSeries))
       = [1, 2, 3, 4, 5, 6, 7, 8, 9, 10, 11, 12, 13, 14, 15, 16, 17]"
    by (simp add: buildVolume_def Let_def descendingSeries_slices descendingSeries_sorted)
      (simp add: slice1_def)
  note t = packed_in_ascending_order [OF h1 h2 h3]
  show ?thesis using t d l v by blast
qed

text \<open>
  Claim C6 as stated fails with the sort of libstdc++ on seventeen slices, the first
  length that is not left to insertion sort alone. The seventeen slices of \<open>equalIndexSeries\<close> all have the instance
  number 0. The median step swaps the places 1 and 9, the partition then swaps 2 with
  17, 3 with 16, and so on down to 9 with 10, and the final insertion sort moves nothing:
  the slice found ninth is packed first, the slice found first is packed tenth.
\<close>

theorem unstable_sort_counterexample:
  "map dsInstanceNumber equalIndexSeries = replicate 17 0
   \<and> concat (map pixels (snd (loadSlices initialFrame equalIndexSeries)))
       = [1, 2, 3, 4, 5, 6, 7, 8, 9, 10, 11, 12, 13, 14, 15, 16, 17]
   \<and> fst (OnLoadBtn stdSort initialFrame equalIndexSeries) = Loaded
   \<and> volumeData (snd (OnLoadBtn stdSort initialFrame equalIndexSeries))
       = [9, 17, 16, 15, 14, 13, 12, 11, 10, 1, 8, 7, 6, 5, 4, 3, 2]"
proof -
  have a: "map dsInstanceNumber equalIndexSeries = replicate 17 0"
    by (simp add: equalIndexSeries_def pixelFile_def numeral_eq_Suc)
  have b: "concat (map pixels (snd (loadSlices initialFrame equalIndexSeries)))
       = [1, 2, 3, 4, 5, 6, 7, 8, 9, 10, 11, 12, 13, 14, 15, 16, 17]"
    by (simp add: equalIndexSeries_slices slice1_def)
  have c: "OnLoadBtn stdSort initialFrame equalIndexSeries
             = buildVolume stdSort initialFrame equalIndexSeries"
    by (simp add: OnLoadBtn_def equalIndexSeries_selected)
  have d: "fst (buildVolume stdSort initialFrame equalIndexSeries) = Loaded"
    "volumeData (snd (buildVolume stdSort initialFrame equalIndexSeries))
       = [9, 17, 16, 15, 14, 13, 12, 11, 10, 1, 8, 7, 6, 5, 4, 3, 2]"
    by (simp_all add: buildVolume_def Let_def equalIndexSeries_slices equalIndexSeries_sorted)
      (simp_all add: slice1_def)
  show ?thesis using a b c d by simp
qed

subsection \<open>The loading loop over well-formed images\<close>

lemma readHeader_dims:
  "0 \<le> volWidth (readHeader st f)" "volWidth (readHeader st f) < 2 ^ 16"
  "0 \<le> volHeight (readHeader st f)" "volHeight (readHeader st f) < 2 ^ 16"
proof -
  have "uint (dsColumns f) < 2 ^ LENGTH(16)" "uint (dsRows f) < 2 ^ LENGTH(16)"
    by (rule uint_lt2p)+
  then show "volWidth (readHeader st f) < 2 ^ 16" "volHeight (readHeader st f) < 2 ^ 16"
    by (simp_all add: readHeader_fields)
  show "0 \<le> volWidth (readHeader st f)" "0 \<le> volHeight (readHeader st f)"
    by (simp_all add: readHeader_fields)
qed

lemma kept_slice_from:
  assumes "image_ok f" "f \<in> set files" "imgNormal f"
    and "imgWidth f = volWidth st" "imgHeight f = volHeight st"
    and "imgOutputData f = Some data"
  shows "slice_from files st \<lparr>instanceNum = dsInstanceNumber f,
           pixels = take (nat (volWidth st * volHeight st)) data\<rparr>"
    and "volWidth st \<noteq> 0"
proof -
  have len: "int (length data) = volWidth st * volHeight st" and pos: "0 < volWidth st"
    using assms(1,3,4,5,6) by (simp_all add: image_ok_def)
  then have "nat (volWidth st * volHeight st) = length data" by simp
  then have "take (nat (volWidth st * volHeight st)) data = data" by simp
  then show "slice_from files st \<lparr>instanceNum = dsInstanceNumber f,
           pixels = take (nat (volWidth st * volHeight st)) data\<rparr>"
    using len assms(2,6) by (auto simp: slice_from_def)
  show "volWidth st \<noteq> 0" using pos by simp
qed

lemma loadStep_inv:
  assumes inv: "load_inv pre acc" and ok: "image_ok f"
  shows "load_inv (pre @ [f]) (loadStep acc f)"
proof -
  obtain st temp where acc: "acc = (st, temp)" by (cases acc)
  have mono: "list_all (slice_from (pre @ [f]) st') temp"
    if "list_all (slice_from pre st') temp" for st'
    using that by (auto simp: list_all_iff slice_from_def)
  show ?thesis
  proof (cases "loadGood f")
    case False
    then have "loadStep acc f = acc" by (rule loadStep_unreadable)
    then show ?thesis using inv acc mono [of st] by (simp add: load_inv_def)
  next
    case good: True
    define st' where "st' = (if volWidth st = 0 then readHeader st f else st)"
    have dims: "0 \<le> volWidth st'" "volWidth st' < 2 ^ 16"
      "0 \<le> volHeight st'" "volHeight st' < 2 ^ 16"
      using inv acc readHeader_dims [of st f] by (auto simp: st'_def load_inv_def)
    have old: "list_all (slice_from (pre @ [f]) st') temp \<and> (temp \<noteq> [] \<longrightarrow> volWidth st' \<noteq> 0)"
    proof (cases "volWidth st = 0")
      case True
      then have "temp = []" using inv acc by (auto simp: load_inv_def)
      then show ?thesis by simp
    next
      case False
      then have "st' = st" by (simp add: st'_def)
      then show ?thesis using inv acc mono [of st] by (simp add: load_inv_def)
    qed
    have len: "length temp \<le> length pre" using inv acc by (simp add: load_inv_def)
    show ?thesis
    proof (cases "imgNormal f \<and> imgWidth f = volWidth st' \<and> imgHeight f = volHeight st'
                    \<and> imgOutputData f \<noteq> None")
      case False
      then have "loadStep acc f = (st', temp)"
        using good acc by (auto simp: loadStep_def Let_def st'_def split: option.splits)
      then show ?thesis using dims old len by (simp add: load_inv_def)
    next
      case True
      then obtain data where data: "imgOutputData f = Some data" by auto
      let ?s = "\<lparr>instanceNum = dsInstanceNumber f,
                 pixels = take (nat (volWidth st' * volHeight st')) data\<rparr>"
      have step: "loadStep acc f = (st', temp @ [?s])"
        using good acc True data by (simp add: loadStep_def Let_def st'_def)
      have "f \<in> set (pre @ [f])" by simp
      then have new: "slice_from (pre @ [f]) st' ?s" "volWidth st' \<noteq> 0"
        using kept_slice_from [OF ok _ _ _ _ data, of "pre @ [f]" st'] True by simp_all
      show ?thesis using step dims old new len by (simp add: load_inv_def)
    qed
  qed
qed

lemma foldl_loadStep_inv:
  "load_inv pre acc \<Longrightarrow> \<forall>f\<in>set files. image_ok f \<Longrightarrow>
     load_inv (pre @ files) (foldl loadStep acc files)"
proof (induction files arbitrary: pre acc)
  case Nil
  then show ?case by simp
next
  case (Cons f files)
  have "load_inv (pre @ [f]) (loadStep acc f)"
    using Cons.prems by (intro loadStep_inv) simp_all
  then have "load_inv ((pre @ [f]) @ files) (foldl loadStep (loadStep acc f) files)"
    using Cons.prems(2) by (intro Cons.IH) simp_all
  then show ?case by simp
qed

lemma loadSlices_inv:
  assumes "\<forall>f\<in>set files. image_ok f"
  shows "load_inv files (loadSlices st files)"
proof -
  have "load_inv [] (st\<lparr>volWidth := 0, volHeight := 0\<rparr>, [])"
    by (simp add: load_inv_def)
  then have "load_inv ([] @ files) (foldl loadStep (st\<lparr>volWidth := 0, volHeight := 0\<rparr>, []) files)"
    using assms by (rule foldl_loadStep_inv)
  then show ?thesis by (simp add: loadSlices_def)
qed

lemma concat_block:
  "\<forall>x\<in>set xss. length x = n \<Longrightarrow> z < length xss \<Longrightarrow>
     take n (drop (z * n) (concat xss)) = xss ! z"
proof (induction xss arbitrary: z)
  case Nil
  then show ?case by simp
next
  case (Cons x xss)
  show ?case
  proof (cases z)
    case 0
    then show ?thesis using Cons.prems by simp
  next
    case (Suc z')
    then have "drop (z * n) (concat (x # xss)) = drop (z' * n) (concat xss)"
      using Cons.prems(1) by simp
    then show ?thesis using Cons.IH [of z'] Cons.prems Suc by simp
  qed
qed

lemma concat_block_length: "\<forall>x\<in>set xss. length x = n \<Longrightarrow> length (concat xss) = length xss * n"
  by (induction xss) simp_all

subsection \<open>Offsets without wrap-around\<close>

lemma to_size_t_nat:
  assumes "n < 2 ^ 64"
  shows "to_size_t (int n) = n"
proof -
  have "int n < int (2 ^ 64)" using assms by (simp only: of_nat_less_iff)
  then have "int n < 2 ^ 64" by simp
  then have "int n mod 2 ^ 64 = int n" by (intro mod_pos_pos_trivial) simp_all
  then show ?thesis by (simp only: to_size_t_def nat_int)
qed

lemma sz_mul_small: "a * b < 2 ^ 64 \<Longrightarrow> sz_mul a b = a * b"
  by (simp add: sz_mul_def)

lemma sz_add_small: "a + b < 2 ^ 64 \<Longrightarrow> sz_add a b = a + b"
  by (simp add: sz_add_def)

lemma prod_bound2:
  fixes a b :: nat
  assumes "a < A" "b < B"
  shows "a * b < A * B"
  using assms by (simp add: mult_strict_mono)

lemma dims_product_bound:
  fixes W H :: nat
  assumes "W < 2 ^ 16" "H < 2 ^ 16"
  shows "W * H < 2 ^ 32"
proof -
  have "W * H < 2 ^ 16 * 2 ^ 16" using assms by (rule prod_bound2)
  then show ?thesis by simp
qed

lemma index_product_bound:
  fixes s W H :: nat
  assumes "s < 2 ^ 31" "W < 2 ^ 16" "H < 2 ^ 16"
  shows "s * W < 2 ^ 47" "s * (W * H) < 2 ^ 63" "s * W * H < 2 ^ 63"
proof -
  have "s * W < 2 ^ 31 * 2 ^ 16" using assms(1,2) by (rule prod_bound2)
  then show a: "s * W < 2 ^ 47" by simp
  have "s * W * H < 2 ^ 47 * 2 ^ 16" using a assms(3) by (rule prod_bound2)
  then show "s * W * H < 2 ^ 63" by simp
  then show "s * (W * H) < 2 ^ 63" by (simp add: mult.assoc)
qed

lemma axial_offset:
  assumes "s < 2 ^ 31" "W < 2 ^ 16" "H < 2 ^ 16"
  shows "sz_mul (sz_mul (to_size_t (int s)) (to_size_t (int W))) (to_size_t (int H)) = s * W * H"
    and "sz_add (s * W * H) (to_size_t (int W * int H)) = s * W * H + W * H"
proof -
  note b = index_product_bound [OF assms] dims_product_bound [OF assms(2,3)]
  have s: "to_size_t (int s) = s" using assms(1) by (simp add: to_size_t_nat)
  have w: "to_size_t (int W) = W" using assms(2) by (simp add: to_size_t_nat)
  have h: "to_size_t (int H) = H" using assms(3) by (simp add: to_size_t_nat)
  have "sz_mul s W = s * W" using b(1) by (simp add: sz_mul_small)
  then show "sz_mul (sz_mul (to_size_t (int s)) (to_size_t (int W))) (to_size_t (int H)) = s * W * H"
    using b(3) s w h by (simp add: sz_mul_small)
  have "to_size_t (int W * int H) = W * H"
    using b(4) to_size_t_nat [of "W * H"] by simp
  then show "sz_add (s * W * H) (to_size_t (int W * int H)) = s * W * H + W * H"
    using b(3,4) by (simp add: sz_add_small)
qed

lemma coronal_offset:
  assumes "volWidth st = int W" "volHeight st = int H"
    and "z < 2 ^ 31" "s < 2 ^ 31" "W < 2 ^ 16" "H < 2 ^ 16"
  shows "coronalBase st (int s) z = z * (W * H) + s * W"
    and "sz_add (z * (W * H) + s * W) (to_size_t (int W)) = z * (W * H) + s * W + W"
proof -
  note bz = index_product_bound [OF assms(3,5,6)]
  note bs = index_product_bound [OF assms(4,5,6)]
  note bd = dims_product_bound [OF assms(5,6)]
  have s: "to_size_t (int s) = s" using assms(4) by (simp add: to_size_t_nat)
  have z: "to_size_t (int z) = z" using assms(3) by (simp add: to_size_t_nat)
  have w: "to_size_t (int W) = W" using assms(5) by (simp add: to_size_t_nat)
  have wh: "to_size_t (int W * int H) = W * H"
    using bd to_size_t_nat [of "W * H"] by simp
  have m1: "sz_mul z (W * H) = z * (W * H)" using bz(2) by (simp add: sz_mul_small)
  have m2: "sz_mul s W = s * W" using bs(1) by (simp add: sz_mul_small)
  show "coronalBase st (int s) z = z * (W * H) + s * W"
    using bz(2) bs(1) by (simp add: coronalBase_def assms(1,2) s z w wh m1 m2 sz_add_small)
  show "sz_add (z * (W * H) + s * W) (to_size_t (int W)) = z * (W * H) + s * W + W"
    using bz(2) bs(1) assms(5) by (simp add: w sz_add_small)
qed

lemma sagittal_offset:
  assumes "volWidth st = int W" "volHeight st = int H"
    and "z < 2 ^ 31" "s < 2 ^ 31" "W < 2 ^ 16" "H < 2 ^ 16" "y < 2 ^ 16"
  shows "sagittalIdx st (int s) z y = z * (W * H) + y * W + s"
proof -
  note bz = index_product_bound [OF assms(3,5,6)]
  note bd = dims_product_bound [OF assms(5,6)]
  note byw = dims_product_bound [OF assms(7,5)]
  have s: "to_size_t (int s) = s" using assms(4) by (simp add: to_size_t_nat)
  have z: "to_size_t (int z) = z" using assms(3) by (simp add: to_size_t_nat)
  have y: "to_size_t (int y) = y" using assms(7) by (simp add: to_size_t_nat)
  have w: "to_size_t (int W) = W" using assms(5) by (simp add: to_size_t_nat)
  have wh: "to_size_t (int W * int H) = W * H"
    using bd to_size_t_nat [of "W * H"] by simp
  have m1: "sz_mul z (W * H) = z * (W * H)" using bz(2) by (simp add: sz_mul_small)
  have m2: "sz_mul y W = y * W" using byw by (simp add: sz_mul_small)
  have a1: "sz_add (z * (W * H)) (y * W) = z * (W * H) + y * W"
    using bz(2) byw by (simp add: sz_add_small)
  show ?thesis
    using bz(2) byw assms(4)
    by (simp add: sagittalIdx_def assms(1,2) s z y w wh m1 m2 a1 sz_add_small)
qed

subsection \<open>Plane extraction at a non-negative index\<close>

lemma write_range_length:
  "pos + length row \<le> length buf \<Longrightarrow> length (write_range buf pos row) = length buf"
  by (simp add: write_range_def)

lemma write_range_nth:
  assumes "pos + length row \<le> length buf" "i < length buf"
  shows "write_range buf pos row ! i
           = (if pos \<le> i \<and> i < pos + length row then row ! (i - pos) else buf ! i)"
proof -
  have lt: "length (take pos buf) = pos" using assms(1) by simp
  consider "i < pos" | "pos \<le> i" "i < pos + length row" | "pos + length row \<le> i"
    by linarith
  then show ?thesis
  proof cases
    case 1
    then show ?thesis using lt by (simp add: write_range_def nth_append)
  next
    case 2
    then have "i - pos < length row" by linarith
    then show ?thesis using 2 lt by (simp add: write_range_def nth_append)
  next
    case 3
    then have n1: "\<not> i < pos" and n2: "\<not> i - pos < length row" by linarith+
    have "write_range buf pos row ! i = (row @ drop (pos + length row) buf) ! (i - pos)"
      using n1 lt by (simp add: write_range_def nth_append)
    also have "\<dots> = drop (pos + length row) buf ! (i - pos - length row)"
      using n2 by (simp add: nth_append)
    also have "\<dots> = buf ! (pos + length row + (i - pos - length row))"
      using assms(1) by (intro nth_drop)
    also have "\<dots> = buf ! i" using 3 by simp
    finally show ?thesis using 3 by simp
  qed
qed

lemma read_range_inside:
  "off + n \<le> length xs \<Longrightarrow> length xs < 2 ^ 63 \<Longrightarrow>
     read_range xs off (int n) = Inr (take n (drop off xs))"
  by (simp add: read_range_def)

lemma row_position:
  fixes x W z k :: nat
  assumes "x < W"
  shows "(k * W \<le> z * W + x \<and> z * W + x < k * W + W) \<longleftrightarrow> z = k"
proof
  assume a: "k * W \<le> z * W + x \<and> z * W + x < k * W + W"
  show "z = k"
  proof (rule ccontr)
    assume "z \<noteq> k"
    then consider "z < k" | "k < z" by linarith
    then show False
    proof cases
      case 1
      then have "Suc z * W \<le> k * W" by (intro mult_le_mono1) simp
      then show False using a assms by simp
    next
      case 2
      then have "Suc k * W \<le> z * W" by (intro mult_le_mono1) simp
      then show False using a by simp
    qed
  qed
next
  assume "z = k"
  then show "k * W \<le> z * W + x \<and> z * W + x < k * W + W" using assms by simp
qed

lemma row_index_bound:
  fixes x W z D :: nat
  assumes "x < W" "z < D"
  shows "z * W + x < W * D"
proof -
  have "Suc z * W \<le> D * W" using assms(2) by (intro mult_le_mono1) simp
  then show ?thesis using assms(1) by (simp add: mult.commute)
qed

lemma coronalStep_row:
  assumes "volWidth st = int W" "volHeight st = int H"
    and "W < 2 ^ 16" "H < 2 ^ 16" "s < 2 ^ 31" "z < 2 ^ 31"
    and "length (volumeData st) < 2 ^ 63"
  shows "coronalStep st (int s) z (Inr buf)
           = (if z * (W * H) + s * W + W \<le> length (volumeData st)
              then Inr (write_range buf (z * W)
                         (take W (drop (z * (W * H) + s * W) (volumeData st))))
              else Inr buf)"
proof -
  note off = coronal_offset [OF assms(1,2) assms(6) assms(5) assms(3,4)]
  show ?thesis
    using assms(7)
    by (simp add: coronalStep_def Let_def off assms(1) read_range_inside)
qed

lemma coronal_fold:
  assumes "volWidth st = int W" "volHeight st = int H"
    and "W < 2 ^ 16" "H < 2 ^ 16" "s < 2 ^ 31" "D < 2 ^ 31"
    and "length (volumeData st) < 2 ^ 63"
    and "k \<le> D"
  shows "\<exists>buf. fold (coronalStep st (int s)) [0..<k] (Inr (replicate (W * D) 0)) = Inr buf
           \<and> length buf = W * D
           \<and> (\<forall>z<D. \<forall>x<W. buf ! (z * W + x)
                 = (if z < k \<and> z * (W * H) + s * W + W \<le> length (volumeData st)
                    then volumeData st ! (z * (W * H) + s * W + x) else 0))"
  using assms(8)
proof (induction k)
  case 0
  then show ?case by (simp add: row_index_bound)
next
  case (Suc k)
  then have kD: "k < D" and kle: "k \<le> D" by simp_all
  obtain buf where buf:
      "fold (coronalStep st (int s)) [0..<k] (Inr (replicate (W * D) 0)) = Inr buf"
      "length buf = W * D"
      "\<forall>z<D. \<forall>x<W. buf ! (z * W + x)
          = (if z < k \<and> z * (W * H) + s * W + W \<le> length (volumeData st)
             then volumeData st ! (z * (W * H) + s * W + x) else 0)"
    using Suc.IH [OF kle] by blast
  have k31: "k < 2 ^ 31" using kD assms(6) by simp
  let ?base = "k * (W * H) + s * W"
  let ?row = "take W (drop ?base (volumeData st))"
  have step: "fold (coronalStep st (int s)) [0..<Suc k] (Inr (replicate (W * D) 0))
                = coronalStep st (int s) k (Inr buf)"
    using buf(1) by simp
  show ?case
  proof (cases "?base + W \<le> length (volumeData st)")
    case False
    then have "coronalStep st (int s) k (Inr buf) = Inr buf"
      using coronalStep_row [OF assms(1-5) k31 assms(7)] by simp
    moreover have "\<forall>z<D. \<forall>x<W. buf ! (z * W + x)
          = (if z < Suc k \<and> z * (W * H) + s * W + W \<le> length (volumeData st)
             then volumeData st ! (z * (W * H) + s * W + x) else 0)"
      using buf(3) False by (auto simp: less_Suc_eq)
    ultimately show ?thesis using step buf(2) by simp
  next
    case True
    then have new: "coronalStep st (int s) k (Inr buf) = Inr (write_range buf (k * W) ?row)"
      using coronalStep_row [OF assms(1-5) k31 assms(7)] by simp
    have lrow: "length ?row = W" using True by simp
    have fits: "k * W + length ?row \<le> length buf"
    proof -
      have "Suc k * W \<le> D * W" using kD by (intro mult_le_mono1) simp
      then show ?thesis using lrow buf(2) by (simp add: mult.commute)
    qed
    have len: "length (write_range buf (k * W) ?row) = W * D"
      using write_range_length [OF fits] buf(2) by simp
    have elems: "write_range buf (k * W) ?row ! (z * W + x)
          = (if z < Suc k \<and> z * (W * H) + s * W + W \<le> length (volumeData st)
             then volumeData st ! (z * (W * H) + s * W + x) else 0)"
      if zx: "z < D" "x < W" for z x
    proof -
      have inb: "z * W + x < length buf" using zx buf(2) by (simp add: row_index_bound)
      have w: "write_range buf (k * W) ?row ! (z * W + x)
                 = (if z = k then ?row ! (z * W + x - k * W) else buf ! (z * W + x))"
        using write_range_nth [OF fits inb] row_position [OF zx(2), of k z] lrow by simp
      show ?thesis
      proof (cases "z = k")
        case True
        have "?row ! x = volumeData st ! (?base + x)"
          using zx(2) \<open>?base + W \<le> length (volumeData st)\<close> by simp
        then show ?thesis using w True \<open>?base + W \<le> length (volumeData st)\<close> by simp
      next
        case False
        then have "(z < Suc k) = (z < k)" by auto
        then show ?thesis using w False buf(3) zx by simp
      qed
    qed
    show ?thesis using step new len elems by simp
  qed
qed

lemma sagittalStep_elem:
  assumes "volWidth st = int W" "volHeight st = int H"
    and "W < 2 ^ 16" "H < 2 ^ 16" "s < 2 ^ 31" "z < 2 ^ 31" "y < H"
  shows "sagittalStep st (int s) z y buf
           = (if z * (W * H) + y * W + s < length (volumeData st)
              then buf[z * H + y := volumeData st ! (z * (W * H) + y * W + s)]
              else buf)"
proof -
  have y16: "y < 2 ^ 16" using assms(4,7) by simp
  note off = sagittal_offset [OF assms(1,2) assms(6) assms(5) assms(3,4) y16]
  show ?thesis by (simp add: sagittalStep_def Let_def off assms(2))
qed

lemma sagittal_inner:
  assumes "volWidth st = int W" "volHeight st = int H"
    and "W < 2 ^ 16" "H < 2 ^ 16" "s < 2 ^ 31" "z < 2 ^ 31"
    and "j \<le> H"
  shows "length (fold (sagittalStep st (int s) z) [0..<j] buf) = length buf
       \<and> (\<forall>i<length buf. fold (sagittalStep st (int s) z) [0..<j] buf ! i
             = (if z * H \<le> i \<and> i < z * H + j
                   \<and> z * (W * H) + (i - z * H) * W + s < length (volumeData st)
                then volumeData st ! (z * (W * H) + (i - z * H) * W + s)
                else buf ! i))"
  using assms(7)
proof (induction j)
  case 0
  then show ?case by auto
next
  case (Suc j)
  then have jH: "j < H" and jle: "j \<le> H" by simp_all
  let ?b = "fold (sagittalStep st (int s) z) [0..<j] buf"
  have IH: "length ?b = length buf"
    "\<forall>i<length buf. ?b ! i
        = (if z * H \<le> i \<and> i < z * H + j
              \<and> z * (W * H) + (i - z * H) * W + s < length (volumeData st)
           then volumeData st ! (z * (W * H) + (i - z * H) * W + s)
           else buf ! i)"
    using Suc.IH [OF jle] by simp_all
  have step: "fold (sagittalStep st (int s) z) [0..<Suc j] buf
                = sagittalStep st (int s) z j ?b"
    by simp
  note el = sagittalStep_elem [OF assms(1-6) jH, of ?b]
  have len: "length (sagittalStep st (int s) z j ?b) = length buf"
    using el IH(1) by simp
  have elems: "sagittalStep st (int s) z j ?b ! i
        = (if z * H \<le> i \<and> i < z * H + Suc j
              \<and> z * (W * H) + (i - z * H) * W + s < length (volumeData st)
           then volumeData st ! (z * (W * H) + (i - z * H) * W + s)
           else buf ! i)"
    if i: "i < length buf" for i
  proof (cases "i = z * H + j")
    case True
    then show ?thesis using el IH i by simp
  next
    case False
    then have eq: "(i < z * H + Suc j) = (i < z * H + j)" by auto
    have r: "sagittalStep st (int s) z j ?b ! i = ?b ! i"
      using el False by simp
    have IHi: "?b ! i
        = (if z * H \<le> i \<and> i < z * H + j
              \<and> z * (W * H) + (i - z * H) * W + s < length (volumeData st)
           then volumeData st ! (z * (W * H) + (i - z * H) * W + s)
           else buf ! i)"
      using IH(2) i by blast
    show ?thesis by (simp only: r IHi eq)
  qed
  show ?case using step len elems by simp
qed

lemma sagittal_fold:
  assumes "volWidth st = int W" "volHeight st = int H"
    and "W < 2 ^ 16" "H < 2 ^ 16" "s < 2 ^ 31" "D < 2 ^ 31"
    and "k \<le> D"
  shows "length (fold (\<lambda>z. fold (sagittalStep st (int s) z) [0..<H]) [0..<k]
                   (replicate (H * D) 0)) = H * D
       \<and> (\<forall>z<D. \<forall>y<H.
             fold (\<lambda>z. fold (sagittalStep st (int s) z) [0..<H]) [0..<k]
                  (replicate (H * D) 0) ! (z * H + y)
             = (if z < k \<and> z * (W * H) + y * W + s < length (volumeData st)
                then volumeData st ! (z * (W * H) + y * W + s) else 0))"
  using assms(7)
proof (induction k)
  case 0
  then show ?case by (simp add: row_index_bound)
next
  case (Suc k)
  then have kD: "k < D" and kle: "k \<le> D" by simp_all
  have k31: "k < 2 ^ 31" using kD assms(6) by simp
  let ?b = "fold (\<lambda>z. fold (sagittalStep st (int s) z) [0..<H]) [0..<k] (replicate (H * D) 0)"
  have IH: "length ?b = H * D"
    "\<forall>z<D. \<forall>y<H. ?b ! (z * H + y)
        = (if z < k \<and> z * (W * H) + y * W + s < length (volumeData st)
           then volumeData st ! (z * (W * H) + y * W + s) else 0)"
    using Suc.IH [OF kle] by simp_all
  let ?c = "fold (sagittalStep st (int s) k) [0..<H] ?b"
  have step: "fold (\<lambda>z. fold (sagittalStep st (int s) z) [0..<H]) [0..<Suc k]
                (replicate (H * D) 0) = ?c"
    by simp
  note inner = sagittal_inner [OF assms(1-5) k31 order_refl, of ?b]
  have len: "length ?c = H * D" using inner IH(1) by simp
  have elems: "?c ! (z * H + y)
        = (if z < Suc k \<and> z * (W * H) + y * W + s < length (volumeData st)
           then volumeData st ! (z * (W * H) + y * W + s) else 0)"
    if zy: "z < D" "y < H" for z y
  proof -
    have inb: "z * H + y < length ?b" using zy IH(1) by (simp add: row_index_bound)
    have c: "?c ! (z * H + y)
          = (if k * H \<le> z * H + y \<and> z * H + y < k * H + H
                \<and> k * (W * H) + (z * H + y - k * H) * W + s < length (volumeData st)
             then volumeData st ! (k * (W * H) + (z * H + y - k * H) * W + s)
             else ?b ! (z * H + y))"
      using inner inb by blast
    note pos = row_position [OF zy(2), of k z]
    show ?thesis
    proof (cases "z = k")
      case True
      then have "k * H \<le> z * H + y \<and> z * H + y < k * H + H" using pos by blast
      moreover have "z * H + y - k * H = y" using True by simp
      moreover have "?b ! (z * H + y) = 0" using IH(2) zy True by simp
      ultimately show ?thesis using c True by simp
    next
      case False
      then have "\<not> (k * H \<le> z * H + y \<and> z * H + y < k * H + H)" using pos by blast
      then have "?c ! (z * H + y) = ?b ! (z * H + y)" using c by presburger
      moreover have "(z < Suc k) = (z < k)" using False by auto
      ultimately show ?thesis using IH(2) zy by simp
    qed
  qed
  show ?case unfolding step using len elems by simp
qed

lemma extractAxial_nonneg:
  assumes "volWidth st = int W" "volHeight st = int H"
    and "W < 2 ^ 16" "H < 2 ^ 16" "s < 2 ^ 31"
    and "length (volumeData st) < 2 ^ 63"
  shows "extractAxial st (int s)
           = (if s * W * H + W * H \<le> length (volumeData st)
              then Inr (take (W * H) (drop (s * W * H) (volumeData st)))
              else Inr [])"
proof -
  note off = axial_offset [OF assms(5,3,4)]
  have rd: "read_range (volumeData st) (s * W * H) (int W * int H)
              = Inr (take (W * H) (drop (s * W * H) (volumeData st)))"
    if "s * W * H + W * H \<le> length (volumeData st)"
    using that assms(6) read_range_inside [of "s * W * H" "W * H" "volumeData st"] by simp
  have "extractAxial st (int s)
          = (if s * W * H + W * H \<le> length (volumeData st)
             then read_range (volumeData st) (s * W * H) (int W * int H)
             else Inr [])"
    by (simp only: extractAxial_def Let_def assms(1,2) off)
  then show ?thesis using rd by simp
qed

lemma extractCoronal_nonneg:
  assumes "volWidth st = int W" "volHeight st = int H" "volDepth st = int D"
    and "W < 2 ^ 16" "H < 2 ^ 16" "s < 2 ^ 31" "D < 2 ^ 31"
    and "length (volumeData st) < 2 ^ 63"
  shows "\<exists>buf. extractCoronal st (int s) = Inr buf \<and> length buf = W * D
           \<and> (\<forall>z<D. \<forall>x<W. buf ! (z * W + x)
                 = (if z * (W * H) + s * W + W \<le> length (volumeData st)
                    then volumeData st ! (z * (W * H) + s * W + x) else 0))"
proof -
  have wd: "nat (int W * int D) = W * D" by (simp add: nat_mult_distrib)
  obtain buf where buf:
      "fold (coronalStep st (int s)) [0..<D] (Inr (replicate (W * D) 0)) = Inr buf"
      "length buf = W * D"
      "\<forall>z<D. \<forall>x<W. buf ! (z * W + x)
          = (if z < D \<and> z * (W * H) + s * W + W \<le> length (volumeData st)
             then volumeData st ! (z * (W * H) + s * W + x) else 0)"
    using coronal_fold [OF assms(1,2,4,5,6,7,8) order_refl] by blast
  have "extractCoronal st (int s) = Inr buf"
    using buf(1) by (simp add: extractCoronal_def Let_def assms(1,3) wd)
  then show ?thesis using buf(2,3) by auto
qed

lemma extractSagittal_nonneg:
  assumes "volWidth st = int W" "volHeight st = int H" "volDepth st = int D"
    and "W < 2 ^ 16" "H < 2 ^ 16" "s < 2 ^ 31" "D < 2 ^ 31"
  shows "length (extractSagittal st (int s)) = H * D
       \<and> (\<forall>z<D. \<forall>y<H. extractSagittal st (int s) ! (z * H + y)
             = (if z * (W * H) + y * W + s < length (volumeData st)
                then volumeData st ! (z * (W * H) + y * W + s) else 0))"
proof -
  have hd: "nat (int H * int D) = H * D" by (simp add: nat_mult_distrib)
  have eq: "extractSagittal st (int s)
          = fold (\<lambda>z. fold (sagittalStep st (int s) z) [0..<H]) [0..<D] (replicate (H * D) 0)"
    by (simp add: extractSagittal_def Let_def assms(2,3) hd)
  show ?thesis
    unfolding eq using sagittal_fold [OF assms(1,2,4,5,6,7) order_refl] by simp
qed

lemma voxel_offset_bounds:
  fixes W H D x y z :: nat
  assumes "y < H" "z < D"
  shows "x < W \<Longrightarrow> z * (W * H) + y * W + x < W * H * D"
    and "z * (W * H) + y * W + W \<le> W * H * D"
proof -
  have row: "y * W + W \<le> W * H"
  proof -
    have "Suc y * W \<le> H * W" using assms(1) by (intro mult_le_mono1) simp
    then show ?thesis by (simp add: mult.commute)
  qed
  have slab: "z * (W * H) + W * H \<le> W * H * D"
  proof -
    have "Suc z * (W * H) \<le> D * (W * H)" using assms(2) by (intro mult_le_mono1) simp
    then show ?thesis by (simp add: mult.commute)
  qed
  show "z * (W * H) + y * W + W \<le> W * H * D" using row slab by linarith
  then show "z * (W * H) + y * W + x < W * H * D" if "x < W" using that by linarith
qed

text \<open>The definitions that a concrete extraction unfolds.\<close>

lemmas extract_defs = extractPlane_def extractAxial_def extractCoronal_def extractSagittal_def
  coronalStep_def coronalBase_def sagittalStep_def sagittalIdx_def read_range_def
  write_range_def to_size_t_def sz_add_def sz_mul_def viewSpacing_def Let_def

lemma upt_two: "[0..<2] = [0, Suc 0]"
  by (simp add: numeral_2_eq_2)

lemma replicate_small: "replicate 2 x = [x, x]" "replicate 4 x = [x, x, x, x]"
  by (simp_all add: numeral_eq_Suc)

lemma cube_planes:
  "extractPlane cubeFrame 1 1
     = Inr \<lparr>planeW = 2, planeH = 2, scaleY = 1, planeBuf = [3, 4, 7, 8]\<rparr>"
  "extractPlane cubeFrame 2 1
     = Inr \<lparr>planeW = 2, planeH = 2, scaleY = 1, planeBuf = [2, 4, 6, 8]\<rparr>"
  by (simp_all add: cubeFrame_def initialFrame_def extract_defs upt_two replicate_small)

text \<open>
  Claim C5. In a volume of width \<open>W\<close>, height \<open>H\<close> and depth \<open>D\<close> whose buffer has
  \<open>W * H * D\<close> samples, the sample \<open>(x, y, z)\<close> being at offset \<open>z * W * H + y * W + x\<close>:
  the extraction at a fixed row \<open>r < H\<close> gives a plane of width \<open>W\<close> and height \<open>D\<close>
  whose sample at column \<open>x\<close>, row \<open>z\<close> is the sample \<open>(x, r, z)\<close> of the volume, and the
  extraction at a fixed column \<open>c < W\<close> gives a plane of width \<open>H\<close> and height \<open>D\<close> whose
  sample at column \<open>y\<close>, row \<open>z\<close> is the sample \<open>(c, y, z)\<close>. The sides fit \<^verbatim>\<open>Uint16\<close>, as
  the load handler ensures, and the products that the code forms in \<^verbatim>\<open>int\<close> do not
  overflow.
\<close>

theorem coronal_sagittal_sampling:
  assumes "volWidth st = int W" "volHeight st = int H" "volDepth st = int D"
    and "length (volumeData st) = W * H * D"
    and "W < 2 ^ 16" "H < 2 ^ 16"
    and "W * H < 2 ^ 31" "W * D < 2 ^ 31" "H * D < 2 ^ 31" "W * H * D < 2 ^ 63"
    and "r < H" "c < W"
  shows "(\<exists>p. extractPlane st 1 (int r) = Inr p
             \<and> planeW p = int W \<and> planeH p = int D \<and> length (planeBuf p) = W * D
             \<and> (\<forall>z<D. \<forall>x<W. planeBuf p ! (z * W + x)
                                = volumeData st ! (z * W * H + r * W + x)))
       \<and> (\<exists>p. extractPlane st 2 (int c) = Inr p
             \<and> planeW p = int H \<and> planeH p = int D \<and> length (planeBuf p) = H * D
             \<and> (\<forall>z<D. \<forall>y<H. planeBuf p ! (z * H + y)
                                = volumeData st ! (z * W * H + y * W + c)))"
proof -
  have D31: "D < 2 ^ 31"
  proof -
    have "D \<le> H * D" using assms(11) by (cases H) simp_all
    then show ?thesis using assms(9) by linarith
  qed
  have r31: "r < 2 ^ 31" and c31: "c < 2 ^ 31" using assms(5,6,11,12) by simp_all
  have n63: "length (volumeData st) < 2 ^ 63" using assms(4,10) by simp
  obtain buf where buf: "extractCoronal st (int r) = Inr buf" "length buf = W * D"
      "\<forall>z<D. \<forall>x<W. buf ! (z * W + x)
          = (if z * (W * H) + r * W + W \<le> length (volumeData st)
             then volumeData st ! (z * (W * H) + r * W + x) else 0)"
    using extractCoronal_nonneg [OF assms(1,2,3,5,6) r31 D31 n63] by blast
  have cor: "buf ! (z * W + x) = volumeData st ! (z * W * H + r * W + x)"
    if "z < D" "x < W" for z x
    using buf(3) that voxel_offset_bounds(2) [OF assms(11) that(1), of W] assms(4)
    by (simp add: mult.assoc)
  have sag_len: "length (extractSagittal st (int c)) = H * D"
    and sag_el: "\<forall>z<D. \<forall>y<H. extractSagittal st (int c) ! (z * H + y)
             = (if z * (W * H) + y * W + c < length (volumeData st)
                then volumeData st ! (z * (W * H) + y * W + c) else 0)"
    using extractSagittal_nonneg [OF assms(1,2,3,5,6) c31 D31] by simp_all
  have sag: "extractSagittal st (int c) ! (z * H + y) = volumeData st ! (z * W * H + y * W + c)"
    if "z < D" "y < H" for z y
    using sag_el that voxel_offset_bounds(1) [OF that(2,1) assms(12)] assms(4)
    by (simp add: mult.assoc)
  have "\<exists>p. extractPlane st 1 (int r) = Inr p
             \<and> planeW p = int W \<and> planeH p = int D \<and> length (planeBuf p) = W * D
             \<and> (\<forall>z<D. \<forall>x<W. planeBuf p ! (z * W + x)
                                = volumeData st ! (z * W * H + r * W + x))"
    using buf(1,2) cor by (simp add: extractPlane_def Let_def assms(1,3))
  moreover have "\<exists>p. extractPlane st 2 (int c) = Inr p
             \<and> planeW p = int H \<and> planeH p = int D \<and> length (planeBuf p) = H * D
             \<and> (\<forall>z<D. \<forall>y<H. planeBuf p ! (z * H + y)
                                = volumeData st ! (z * W * H + y * W + c))"
    using sag_len sag by (simp add: extractPlane_def Let_def assms(2,3))
  ultimately show ?thesis by blast
qed

text \<open>The theorem at \<open>cubeFrame\<close>, row 1 and column 1.\<close>

theorem coronal_sagittal_sampling_witness:
  "(\<exists>p. extractPlane cubeFrame 1 1 = Inr p \<and> planeBuf p = [3, 4, 7, 8]
         \<and> planeW p = 2 \<and> planeH p = 2
         \<and> planeBuf p ! (1 * 2 + 0) = volumeData cubeFrame ! (1 * 2 * 2 + 1 * 2 + 0))
   \<and> (\<exists>p. extractPlane cubeFrame 2 1 = Inr p \<and> planeBuf p = [2, 4, 6, 8]
         \<and> planeW p = 2 \<and> planeH p = 2
         \<and> planeBuf p ! (1 * 2 + 0) = volumeData cubeFrame ! (1 * 2 * 2 + 0 * 2 + 1))"
proof -
  have h: "volWidth cubeFrame = int 2" "volHeight cubeFrame = int 2"
    "volDepth cubeFrame = int 2" "length (volumeData cubeFrame) = 2 * 2 * 2"
    by (simp_all add: cubeFrame_def initialFrame_def)
  have n: "(2::nat) < 2 ^ 16" "(2::nat) * 2 < 2 ^ 31" "(2::nat) * 2 * 2 < 2 ^ 63"
    "(1::nat) < 2"
    by simp_all
  note t = coronal_sagittal_sampling [OF h n(1) n(1) n(2) n(2) n(2) n(3) n(4) n(4)]
  show ?thesis using t cube_planes by (simp add: cubeFrame_def initialFrame_def)
qed

subsection \<open>Bounds discipline\<close>

text \<open>
  Claim C8, as the code has it. For a slice index from 0 to \<^verbatim>\<open>INT_MAX\<close>, inside the
  extent of its axis or beyond it, extraction never reads outside the buffer and never
  fails. In the row-fixed view a row whose last offset lies outside the buffer is
  skipped as a whole and stays zero; in the column-fixed view a sample whose offset
  lies outside the buffer is skipped and stays zero. In the depth-fixed view nothing is
  zero-filled: when the block \<open>[s * W * H, s * W * H + W * H)\<close> does not fit, the plane
  stays empty and the view returns without an image. Negative indices are left out:
  the guards are evaluated in \<^verbatim>\<open>size_t\<close> and wrap around.
\<close>

theorem extraction_at_nonneg_index:
  assumes "volWidth st = int W" "volHeight st = int H" "volDepth st = int D"
    and "W < 2 ^ 16" "H < 2 ^ 16" "D < 2 ^ 31"
    and "W * H < 2 ^ 31" "W * D < 2 ^ 31" "H * D < 2 ^ 31"
    and "length (volumeData st) < 2 ^ 63"
    and "s < 2 ^ 31"
  shows "(\<exists>p. extractPlane st 0 (int s) = Inr p
             \<and> planeBuf p = (if s * W * H + W * H \<le> length (volumeData st)
                             then take (W * H) (drop (s * W * H) (volumeData st))
                             else []))
       \<and> (length (volumeData st) < s * W * H + W * H \<longrightarrow>
             UpdateOneView st 0 (int s) cross1 cross2 wl ww = Inr None)
       \<and> (\<exists>p. extractPlane st 1 (int s) = Inr p \<and> length (planeBuf p) = W * D
             \<and> (\<forall>z<D. \<forall>x<W. planeBuf p ! (z * W + x)
                   = (if z * (W * H) + s * W + W \<le> length (volumeData st)
                      then volumeData st ! (z * (W * H) + s * W + x) else 0)))
       \<and> (\<exists>p. extractPlane st 2 (int s) = Inr p \<and> length (planeBuf p) = H * D
             \<and> (\<forall>z<D. \<forall>y<H. planeBuf p ! (z * H + y)
                   = (if z * (W * H) + y * W + s < length (volumeData st)
                      then volumeData st ! (z * (W * H) + y * W + s) else 0)))"
proof -
  note ax = extractAxial_nonneg [OF assms(1,2,4,5,11,10)]
  have axial: "\<exists>p. extractPlane st 0 (int s) = Inr p
             \<and> planeBuf p = (if s * W * H + W * H \<le> length (volumeData st)
                             then take (W * H) (drop (s * W * H) (volumeData st))
                             else [])"
    using ax by (simp add: extractPlane_def Let_def)
  have none: "UpdateOneView st 0 (int s) cross1 cross2 wl ww = Inr None"
    if "length (volumeData st) < s * W * H + W * H"
    using ax that by (simp add: UpdateOneView_def extractPlane_def Let_def)
  obtain buf where buf: "extractCoronal st (int s) = Inr buf" "length buf = W * D"
      "\<forall>z<D. \<forall>x<W. buf ! (z * W + x)
          = (if z * (W * H) + s * W + W \<le> length (volumeData st)
             then volumeData st ! (z * (W * H) + s * W + x) else 0)"
    using extractCoronal_nonneg [OF assms(1,2,3,4,5,11,6,10)] by blast
  have coronal: "\<exists>p. extractPlane st 1 (int s) = Inr p \<and> length (planeBuf p) = W * D
             \<and> (\<forall>z<D. \<forall>x<W. planeBuf p ! (z * W + x)
                   = (if z * (W * H) + s * W + W \<le> length (volumeData st)
                      then volumeData st ! (z * (W * H) + s * W + x) else 0))"
    using buf by (simp add: extractPlane_def Let_def)
  have sagittal: "\<exists>p. extractPlane st 2 (int s) = Inr p \<and> length (planeBuf p) = H * D
             \<and> (\<forall>z<D. \<forall>y<H. planeBuf p ! (z * H + y)
                   = (if z * (W * H) + y * W + s < length (volumeData st)
                      then volumeData st ! (z * (W * H) + y * W + s) else 0))"
    using extractSagittal_nonneg [OF assms(1,2,3,4,5,11,6)]
    by (simp add: extractPlane_def Let_def)
  show ?thesis using axial none coronal sagittal by blast
qed

text \<open>The three planes of the 2 by 2 by 1 volume at the index 5, beyond every extent.\<close>

lemma loaded_planes_out_of_range:
  "extractPlane loadedFrame 0 5
     = Inr \<lparr>planeW = 2, planeH = 2, scaleY = 1, planeBuf = []\<rparr>"
  "extractPlane loadedFrame 1 5
     = Inr \<lparr>planeW = 2, planeH = 1, scaleY = 1, planeBuf = [0, 0]\<rparr>"
  "extractPlane loadedFrame 2 5
     = Inr \<lparr>planeW = 2, planeH = 1, scaleY = 1, planeBuf = [0, 0]\<rparr>"
  by (simp_all add: loadedFrame_def initialFrame_def extract_defs upt_two replicate_small)

text \<open>The theorem at \<open>loadedFrame\<close> and index 5.\<close>

theorem extraction_at_nonneg_index_witness:
  "UpdateOneView loadedFrame 0 5 0 0 40 400 = Inr None
   \<and> (\<exists>p. extractPlane loadedFrame 0 5 = Inr p \<and> planeBuf p = [])
   \<and> (\<exists>p. extractPlane loadedFrame 1 5 = Inr p \<and> planeBuf p = [0, 0])
   \<and> (\<exists>p. extractPlane loadedFrame 2 5 = Inr p \<and> planeBuf p = [0, 0])"
proof -
  have h: "volWidth loadedFrame = int 2" "volHeight loadedFrame = int 2"
    "volDepth loadedFrame = int 1" "length (volumeData loadedFrame) < 2 ^ 63"
    "length (volumeData loadedFrame) < 5 * 2 * 2 + 2 * 2"
    by (simp_all add: loadedFrame_def initialFrame_def)
  have n: "(2::nat) < 2 ^ 16" "(1::nat) < 2 ^ 31" "(2::nat) * 2 < 2 ^ 31"
    "(2::nat) * 1 < 2 ^ 31" "(5::nat) < 2 ^ 31"
    by simp_all
  note t = extraction_at_nonneg_index [OF h(1,2,3) n(1) n(1) n(2) n(3) n(4) n(4) h(4) n(5),
      of 0 0 40 400]
  show ?thesis using t h(5) loaded_planes_out_of_range by simp
qed

text \<open>
  Claim C8 as stated promises a black pixel for every skipped offset and no read
  outside the buffer at any index. In \<open>loadedFrame\<close> (depth 1) the depth-fixed view at
  index 1 yields no image at all. At index \<open>-1\<close> the offset is \<open>2 ^ 64 - 4\<close>, the sum
  with \<open>W * H = 4\<close> wraps to 0, the guard passes, and the four samples before the buffer
  are read.
\<close>

theorem extraction_bounds_counterexample:
  "UpdateOneView loadedFrame 0 1 0 0 40 400 = Inr None
   \<and> extractPlane loadedFrame 0 (- 1) = Inl OutOfBoundsRead
   \<and> UpdateOneView loadedFrame 0 (- 1) 0 0 40 400 = Inl OutOfBoundsRead"
  by (simp add: UpdateOneView_def loadedFrame_def initialFrame_def extract_defs)

subsection \<open>Round trip\<close>

text \<open>
  Claim C4. After a successful build, for every depth index \<open>z\<close> from 0 to \<open>D - 1\<close>, the
  depth-fixed plane at \<open>z\<close> has \<open>W * H\<close> samples and is, element for element, the pixel
  buffer of the slice at position \<open>z\<close> of the sorted \<^verbatim>\<open>tempSlices\<close>, which is the whole
  output buffer of one of the source files. The images are as DCMTK delivers them
  (\<open>image_ok\<close>), the sort meets the contract of \<^verbatim>\<open>std::sort\<close>, the file count fits an
  \<^verbatim>\<open>int\<close>, and \<open>W * H\<close> does not overflow an \<^verbatim>\<open>int\<close>.
\<close>

theorem axial_round_trip:
  assumes "std_sort_contract srt"
    and "\<forall>f\<in>set targetFiles. image_ok f"
    and "length targetFiles < 2 ^ 31"
    and "buildVolume srt st targetFiles = (Loaded, st')"
    and "volWidth st' * volHeight st' < 2 ^ 31"
    and "0 \<le> z" "z < volDepth st'"
  shows "\<exists>p. extractPlane st' 0 z = Inr p
           \<and> planeW p = volWidth st' \<and> planeH p = volHeight st'
           \<and> int (length (planeBuf p)) = volWidth st' * volHeight st'
           \<and> volumeData st' = concat (map pixels (srt (snd (loadSlices st targetFiles))))
           \<and> planeBuf p = pixels (srt (snd (loadSlices st targetFiles)) ! nat z)
           \<and> (\<exists>f\<in>set targetFiles. imgOutputData f = Some (planeBuf p)
                 \<and> dsInstanceNumber f
                     = instanceNum (srt (snd (loadSlices st targetFiles)) ! nat z))"
proof -
  let ?st1 = "fst (loadSlices st targetFiles)"
  let ?temp = "snd (loadSlices st targetFiles)"
  let ?order = "srt ?temp"
  define W where "W = nat (volWidth ?st1)"
  define H where "H = nat (volHeight ?st1)"
  define D where "D = length ?order"
  define s where "s = nat z"
  have st': "st' = ?st1\<lparr>volDepth := int (length ?order),
                         volumeData := concat (map pixels ?order)\<rparr>"
    using assms(4) by (simp add: buildVolume_def Let_def split: if_splits)
  have inv: "load_inv targetFiles (?st1, ?temp)"
    using loadSlices_inv [OF assms(2), of st] by simp
  have ms: "mset ?order = mset ?temp" using assms(1) by (simp add: std_sort_contract_def)
  have seteq: "set ?order = set ?temp" using ms by (rule mset_eq_setD)
  have leneq: "length ?order = length ?temp" using ms by (rule mset_eq_length)
  have w: "volWidth st' = int W" and h: "volHeight st' = int H" and d: "volDepth st' = int D"
    using inv st' by (simp_all add: load_inv_def W_def H_def D_def)
  have dims: "0 \<le> volWidth ?st1" "volWidth ?st1 < 2 ^ 16"
    "0 \<le> volHeight ?st1" "volHeight ?st1 < 2 ^ 16"
    using inv by (simp_all add: load_inv_def)
  have W16: "W < 2 ^ 16" using dims(1,2) unfolding W_def by (simp add: nat_less_iff)
  have H16: "H < 2 ^ 16" using dims(3,4) unfolding H_def by (simp add: nat_less_iff)
  have D31: "D < 2 ^ 31"
    using inv leneq assms(3) by (simp add: load_inv_def D_def)
  have sD: "s < D" using assms(6,7) d by (simp add: s_def)
  then have s31: "s < 2 ^ 31" using D31 by simp
  have zs: "z = int s" using assms(6) by (simp add: s_def)
  have origin: "slice_from targetFiles ?st1 x" if "x \<in> set ?order" for x
    using inv that seteq by (simp add: load_inv_def list_all_iff)
  have blocks: "\<forall>x\<in>set (map pixels ?order). length x = W * H"
  proof
    fix x assume "x \<in> set (map pixels ?order)"
    then obtain sl where sl: "sl \<in> set ?order" "x = pixels sl" by auto
    have "int (length (pixels sl)) = volWidth ?st1 * volHeight ?st1"
      using origin [OF sl(1)] by (simp add: slice_from_def)
    also have "\<dots> = int (W * H)" using w h st' by simp
    finally have "int (length (pixels sl)) = int (W * H)" .
    then have "length (pixels sl) = W * H" by (simp only: of_nat_eq_iff)
    then show "length x = W * H" using sl(2) by simp
  qed
  have vol: "volumeData st' = concat (map pixels ?order)" using st' by simp
  have len: "length (volumeData st') = D * (W * H)"
    using concat_block_length [OF blocks] vol by (simp add: D_def)
  have n63: "length (volumeData st') < 2 ^ 63"
    using index_product_bound(2) [OF D31 W16 H16] len by simp
  have guard: "s * W * H + W * H \<le> length (volumeData st')"
  proof -
    have "Suc s * (W * H) \<le> D * (W * H)" using sD by (intro mult_le_mono1) simp
    then show ?thesis using len by (simp add: mult.assoc)
  qed
  have block: "take (W * H) (drop (s * W * H) (volumeData st')) = pixels (?order ! s)"
  proof -
    have "take (W * H) (drop (s * (W * H)) (concat (map pixels ?order)))
            = map pixels ?order ! s"
      using blocks sD by (intro concat_block) (simp_all add: D_def)
    then show ?thesis using vol sD by (simp add: mult.assoc D_def)
  qed
  have ax: "extractAxial st' z = Inr (pixels (?order ! s))"
    using extractAxial_nonneg [OF w h W16 H16 s31 n63] guard block zs by simp
  have mem: "?order ! s \<in> set ?order" using sD by (simp add: D_def)
  have lenp: "int (length (pixels (?order ! s))) = volWidth st' * volHeight st'"
    using blocks mem w h by simp
  have src: "\<exists>f\<in>set targetFiles. imgOutputData f = Some (pixels (?order ! s))
                 \<and> dsInstanceNumber f = instanceNum (?order ! s)"
    using origin [OF mem] by (simp add: slice_from_def)
  show ?thesis
    using ax lenp vol src by (simp add: extractPlane_def Let_def s_def)
qed

text \<open>
  The theorem at \<open>reversedFiles\<close>: the plane at depth 1 is the buffer of the file found
  first, whose instance number is the greater one.
\<close>

theorem axial_round_trip_witness:
  "std_sort_contract insertionSort
   \<and> list_all image_ok reversedFiles
   \<and> fst (buildVolume insertionSort initialFrame reversedFiles) = Loaded
   \<and> (\<exists>p. extractPlane (snd (buildVolume insertionSort initialFrame reversedFiles)) 0 1 = Inr p
          \<and> planeBuf p = [5, 6, 7, 8]
          \<and> imgOutputData (reversedFiles ! 0) = Some (planeBuf p))"
proof -
  let ?st' = "initialFrame\<lparr>volWidth := 2, volHeight := 2, volDepth := 2,
                volumeData := [1, 2, 3, 4, 5, 6, 7, 8]\<rparr>"
  have b: "buildVolume insertionSort initialFrame reversedFiles = (Loaded, ?st')"
    by (simp add: eval_defs reversedFiles_def insertionSort_def)
  have ok: "\<forall>f\<in>set reversedFiles. image_ok f"
    by (simp add: reversedFiles_def sampleFile_def image_ok_def)
  have n: "length reversedFiles < 2 ^ 31" by (simp add: reversedFiles_def)
  have wh: "volWidth ?st' * volHeight ?st' < 2 ^ 31" by simp
  have z: "(0::int) \<le> 1" "1 < volDepth ?st'" by simp_all
  have sl: "pixels (insertionSort (snd (loadSlices initialFrame reversedFiles)) ! nat 1)
              = [5, 6, 7, 8]"
    by (simp add: eval_defs reversedFiles_def insertionSort_def)
  note t = axial_round_trip [OF contract_insertionSort ok n b wh z]
  show ?thesis
    using t sl b ok contract_insertionSort
    by (auto simp: list_all_iff reversedFiles_def sampleFile_def)
qed

subsection \<open>A failed reload\<close>

text \<open>
  Claim C1 fails on the code. The handler writes the frame while it reads:
  \<^verbatim>\<open>volWidth = 0; volHeight = 0;\<close> before the loop, and the header block of the first file
  that loads. The early return on an empty \<^verbatim>\<open>tempSlices\<close> comes after these writes. Here a
  2 by 2 volume is loaded, then a folder whose only file cannot be decoded is opened:
  the build fails, the old sample buffer and depth stay, but width, height, spacing,
  thickness and patient name are those of the undecodable file. The mixed frame shows:
  the depth-fixed view at index 0, which gave an image before, now returns without one.
\<close>

theorem failed_reload_changes_frame:
  "OnLoadBtn insertionSort initialFrame goodFiles = (Loaded, loadedFrame)
   \<and> OnLoadBtn insertionSort loadedFrame [brokenFile]
       = (EmptyVolume, loadedFrame\<lparr>volWidth := 3, volHeight := 3, pxSpcX := 5, pxSpcY := 5,
            sliceThick := 7, patientName := ''Other''\<rparr>)
   \<and> volumeData (snd (OnLoadBtn insertionSort loadedFrame [brokenFile])) = [1, 2, 3, 4]
   \<and> volWidth (snd (OnLoadBtn insertionSort loadedFrame [brokenFile])) = 3
   \<and> volWidth loadedFrame = 2
   \<and> UpdateOneView loadedFrame 0 0 0 0 40 400
       = Inr (Some \<lparr>imgW = 2, imgH = 2, gray = [102, 103, 103, 104],
                     relX = Fin 0, relY = Fin 0\<rparr>)
   \<and> UpdateOneView (snd (OnLoadBtn insertionSort loadedFrame [brokenFile])) 0 0 0 0 40 400
       = Inr None"
  by (simp add: eval_defs goodFiles_def loadedFrame_def insertionSort_def brokenFile_def
      UpdateOneView_def extract_defs windowPixel_def crossRel_def fp_div_def)

end
